theory Spec2Isabelle
  imports Complex_Main "HOL-Library.Word" "HOL-Library.Code_Target_Nat"
begin

unbundle bit_operations_syntax

section \<open>CacheManager\<close>

text \<open>
  The cache of the userscript (class \<open>CacheManager\<close>) keeps its entries in a JavaScript
  \<open>Map\<close>. A \<open>Map\<close> iterates in insertion order, overwriting a present key keeps the
  key's position, and keys are unique; it is modelled as an association list in
  iteration order.
\<close>

type_synonym 'v jsmap = "(string \<times> 'v) list"

definition map_has :: "'v jsmap \<Rightarrow> string \<Rightarrow> bool" where
  "map_has m k = (k \<in> fst ` set m)"

definition map_get :: "'v jsmap \<Rightarrow> string \<Rightarrow> 'v option" where
  "map_get m k = map_of m k"

definition map_delete :: "'v jsmap \<Rightarrow> string \<Rightarrow> 'v jsmap" where
  "map_delete m k = filter (\<lambda>kv. fst kv \<noteq> k) m"

definition map_set :: "'v jsmap \<Rightarrow> string \<Rightarrow> 'v \<Rightarrow> 'v jsmap" where
  "map_set m k v =
     (if map_has m k then map (\<lambda>kv. if fst kv = k then (k, v) else kv) m
      else m @ [(k, v)])"

text \<open>\<open>m.keys().next().value\<close>: the first key in iteration order, \<open>undefined\<close> on an empty map.\<close>

definition map_first_key :: "'v jsmap \<Rightarrow> string option" where
  "map_first_key m = (case m of [] \<Rightarrow> None | kv # _ \<Rightarrow> Some (fst kv))"

record 'd entry =
  data :: 'd
  timestamp :: int
  expiresAt :: int

record cache_config =
  duration :: int
  maxEntries :: int

definition CACHE_CONFIG_variants :: cache_config where
  "CACHE_CONFIG_variants = \<lparr>duration = 86400000, maxEntries = 10000\<rparr>"

text \<open>
  The state the cache methods read and write: the in-memory map \<open>_cache\<close>, the value
  stored under \<open>aliexpress_cache\<close> by the userscript manager (\<open>None\<close> while nothing was
  stored; otherwise the entries of the serialised object, in the order they were
  written), and the script-wide flag \<open>isCacheDisabled\<close>. The storage collaborator is
  taken to accept every write.
\<close>

record 'd cache_state =
  cache :: "'d entry jsmap"
  storage :: "'d entry jsmap option"
  isCacheDisabled :: bool

definition saveToStorage :: "'d cache_state \<Rightarrow> 'd cache_state" where
  "saveToStorage s = (if isCacheDisabled s then s else s\<lparr>storage := Some (cache s)\<rparr>)"

text \<open>\<open>get(key)\<close> at clock reading \<open>now\<close>; \<open>None\<close> is JavaScript's \<open>null\<close>.\<close>

definition CacheManager_get :: "'d cache_state \<Rightarrow> string \<Rightarrow> int \<Rightarrow> 'd option \<times> 'd cache_state" where
  "CacheManager_get s key now =
     (if isCacheDisabled s then (None, s)
      else case map_get (cache s) key of
        None \<Rightarrow> (None, s)
      | Some e \<Rightarrow>
          if now > expiresAt e
          then (None, saveToStorage (s\<lparr>cache := map_delete (cache s) key\<rparr>))
          else (Some (data e), s))"

text \<open>
  \<open>set(key, data, config)\<close>. The configuration may be absent, and a zero (or missing)
  field makes the method fall back to \<open>CACHE_CONFIG.variants\<close>. The entry reads the
  clock twice (\<open>t1\<close> for \<open>timestamp\<close>, \<open>t2\<close> for \<open>expiresAt\<close>). The eviction is guarded
  by the truthiness of the oldest key, so an empty-string key is never evicted.
\<close>

definition effective_config :: "cache_config option \<Rightarrow> cache_config" where
  "effective_config config =
     (case config of
        None \<Rightarrow> CACHE_CONFIG_variants
      | Some c \<Rightarrow> if maxEntries c = 0 \<or> duration c = 0 then CACHE_CONFIG_variants else c)"

definition evict_oldest :: "'v jsmap \<Rightarrow> 'v jsmap" where
  "evict_oldest m =
     (case map_first_key m of
        None \<Rightarrow> m
      | Some oldestKey \<Rightarrow> if oldestKey \<noteq> [] then map_delete m oldestKey else m)"

definition CacheManager_set ::
  "'d cache_state \<Rightarrow> string \<Rightarrow> 'd \<Rightarrow> cache_config option \<Rightarrow> int \<Rightarrow> int \<Rightarrow> 'd cache_state" where
  "CacheManager_set s key d config t1 t2 =
     (if isCacheDisabled s then s
      else
        let cfg = effective_config config;
            exists = map_has (cache s) key;
            currentSizeBefore = int (length (cache s));
            c1 = (if \<not> exists \<and> currentSizeBefore \<ge> maxEntries cfg
                  then evict_oldest (cache s) else cache s);
            c2 = map_set c1 key \<lparr>data = d, timestamp = t1, expiresAt = t2 + duration cfg\<rparr>
        in saveToStorage (s\<lparr>cache := c2\<rparr>))"

definition CacheManager_clear :: "'d cache_state \<Rightarrow> 'd cache_state" where
  "CacheManager_clear s = saveToStorage (s\<lparr>cache := []\<rparr>)"

text \<open>
  Version 1.0.0 of the script (\<open>aliexpress-real-price.user.js\<close>) clears differently: it
  writes the empty object to storage itself, without going through \<open>saveToStorage\<close>.
\<close>

definition CacheManager_clear_v100 :: "'d cache_state \<Rightarrow> 'd cache_state" where
  "CacheManager_clear_v100 s = s\<lparr>cache := [], storage := Some []\<rparr>"

text \<open>Concrete states and configurations used in the examples below.\<close>

definition empty_cache :: "nat cache_state" where
  "empty_cache = \<lparr>cache = [], storage = None, isCacheDisabled = False\<rparr>"

definition cfg_two :: "cache_config option" where
  "cfg_two = Some \<lparr>duration = 1000, maxEntries = 2\<rparr>"

definition cfg_one :: "cache_config option" where
  "cfg_one = Some \<lparr>duration = 1000, maxEntries = 1\<rparr>"

definition two_entries :: "nat cache_state" where
  "two_entries =
     CacheManager_set (CacheManager_set empty_cache ''product_a'' 1 cfg_two 0 0)
       ''product_b'' 2 cfg_two 5 5"

definition one_entry :: "nat cache_state" where
  "one_entry =
     \<lparr>cache = [(''product_1'', \<lparr>data = 7, timestamp = 0, expiresAt = 100\<rparr>)],
      storage = Some [(''product_1'', \<lparr>data = 7, timestamp = 0, expiresAt = 100\<rparr>)],
      isCacheDisabled = False\<rparr>"

definition one_entry_disabled :: "nat cache_state" where
  "one_entry_disabled = one_entry\<lparr>isCacheDisabled := True\<rparr>"

section \<open>Strings and failures\<close>

text \<open>\<open>s.startsWith(k)\<close> and \<open>s.includes(k)\<close> on character lists.\<close>

fun starts_with :: "string \<Rightarrow> string \<Rightarrow> bool" where
  "starts_with s [] = True"
| "starts_with [] (k # ks) = False"
| "starts_with (c # cs) (k # ks) = (c = k \<and> starts_with cs ks)"

fun includes_str :: "string \<Rightarrow> string \<Rightarrow> bool" where
  "includes_str [] k = (k = [])"
| "includes_str (c # cs) k = (starts_with (c # cs) k \<or> includes_str cs k)"

text \<open>
  What the script throws or rejects with: an \<open>Error\<close> or a plain object; only its
  optional \<open>message\<close> is ever inspected.
\<close>

datatype js_error = JsError (message: "string option")

section \<open>RateLimiter\<close>

text \<open>
  The backoff state of a \<open>RateLimiter\<close>. The constructor sets \<open>backoffTime = 1000\<close> and
  \<open>maxBackoffTime = 32000\<close>. The admission log of \<open>waitForSlot\<close> is left out: that method
  only delays the caller according to the wall clock, it raises nothing and neither reads
  nor writes the two backoff fields.
\<close>

record rate_limiter =
  backoffTime :: int
  maxBackoffTime :: int

definition RateLimiter_new :: rate_limiter where
  "RateLimiter_new = \<lparr>backoffTime = 1000, maxBackoffTime = 32000\<rparr>"

text \<open>The test of the \<open>catch\<close> block: \<open>error.message?.includes(...)\<close> for either code.\<close>

definition retryable :: "js_error \<Rightarrow> bool" where
  "retryable error =
     (case message error of
        None \<Rightarrow> False
      | Some m \<Rightarrow> includes_str m ''FAIL_SYS_ILLEGAL_ACCESS'' \<or> includes_str m ''FAIL_SYS_USER_VALIDATE'')"

text \<open>
  \<open>executeWithBackoff(fn)\<close>. The action \<open>fn\<close> is effectful; the model is given the outcomes
  of its successive invocations (\<open>Inr\<close> a result, \<open>Inl\<close> a failure) and returns the
  durations slept between attempts, the outcome of the call, and the limiter afterwards.
  The outcome is \<open>None\<close> when the given outcomes end while the loop is still retrying.
\<close>

fun executeWithBackoff ::
  "rate_limiter \<Rightarrow> (js_error + 'a) list \<Rightarrow> int list \<times> (js_error + 'a) option \<times> rate_limiter" where
  "executeWithBackoff rl [] = ([], None, rl)"
| "executeWithBackoff rl (Inr result # rest) = ([], Some (Inr result), rl\<lparr>backoffTime := 1000\<rparr>)"
| "executeWithBackoff rl (Inl error # rest) =
     (if retryable error then
        (if backoffTime rl \<ge> maxBackoffTime rl then ([], Some (Inl error), rl)
         else
           (case executeWithBackoff
                   (rl\<lparr>backoffTime := min (backoffTime rl * 2) (maxBackoffTime rl)\<rparr>) rest of
              (waits, outcome, rl') \<Rightarrow> (backoffTime rl # waits, outcome, rl')))
      else ([], Some (Inl error), rl))"

definition limiter_8000 :: rate_limiter where
  "limiter_8000 = \<lparr>backoffTime = 1000, maxBackoffTime = 8000\<rparr>"

definition challenge :: "js_error + nat" where
  "challenge = Inl (JsError (Some ''FAIL_SYS_USER_VALIDATE::challenge''))"

section \<open>Canonical data\<close>

text \<open>
  A finite JavaScript number is modelled as the real number it denotes. Where the
  outcome depends on the rounding of double-precision arithmetic, in the score of a
  variant, every operation is rounded explicitly (section on double-precision
  arithmetic below); elsewhere the operations are written without rounding.
\<close>

record price_info =
  price_value :: real
  formattedPrice :: string
  discountedValue :: real
  discountedFormattedPrice :: string
  discount :: string

record shipping_info =
  cost :: real
  shipping_formattedPrice :: string
  freeThreshold :: "real option"

record variant =
  variant_id :: "string option"
  name :: string
  price :: price_info
  shipping :: shipping_info
  stock :: int
  isMainProduct :: bool

record product =
  productId :: string
  title :: string
  variants :: "variant list"

record cluster =
  centerPrice :: real
  count :: nat
  variance :: real

record distribution =
  dist_min :: real
  dist_max :: real
  clusters :: "cluster list"

record page_context =
  median :: real
  lowerBound :: real
  upperBound :: real
  distribution :: distribution

section \<open>Double-precision arithmetic\<close>

text \<open>
  A JavaScript number is an IEEE 754 binary64 value: a significand of 53 bits, normal
  exponents from \<open>-1022\<close> to \<open>1023\<close>, and below \<open>2 ^ -1022\<close> the subnormal numbers, all
  multiples of \<open>2 ^ -1074\<close>. An arithmetic operation yields the exact result rounded to
  the nearest such number, a tie going to the even significand, and a decimal literal
  denotes the double nearest to it.

  \<open>bit_length n\<close> is the number of binary digits of \<open>n\<close>; \<open>ilog2 x\<close> is the binary
  exponent of a positive \<open>x\<close>, the integer \<open>e\<close> with \<open>2 ^ e \<le> x < 2 ^ (e + 1)\<close> (lemma
  \<open>ilog2_bounds\<close>); \<open>quantum x\<close> is the exponent of the spacing of the doubles around \<open>x\<close>;
  \<open>scale2 k x\<close> is \<open>x * 2 ^ k\<close>; \<open>fl x\<close> rounds \<open>x\<close> to the nearest multiple of that
  spacing (lemma \<open>fl_nearest\<close>). A result whose rounded magnitude reaches \<open>2 ^ 1024\<close> is
  an infinity (\<open>overflows\<close>).
\<close>

fun bit_length :: "nat \<Rightarrow> nat" where
  "bit_length 0 = 0"
| "bit_length (Suc n) = Suc (bit_length (Suc n div 2))"

definition ilog2 :: "real \<Rightarrow> int" where
  "ilog2 x =
     (if 1 \<le> x then int (bit_length (nat \<lfloor>x\<rfloor>)) - 1
      else - int (bit_length (nat (\<lceil>1 / x\<rceil> - 1))))"

definition round_half_even :: "real \<Rightarrow> int" where
  "round_half_even m =
     (let f = \<lfloor>m\<rfloor>
      in if m - of_int f < 1 / 2 then f
         else if 1 / 2 < m - of_int f then f + 1
         else if even f then f else f + 1)"

definition quantum :: "real \<Rightarrow> int" where
  "quantum x = max (ilog2 \<bar>x\<bar>) (- 1022) - 52"

definition scale2 :: "int \<Rightarrow> real \<Rightarrow> real" where
  "scale2 k x = (if 0 \<le> k then x * 2 ^ nat k else x / 2 ^ nat (- k))"

definition fl :: "real \<Rightarrow> real" where
  "fl x = (if x = 0 then 0
           else scale2 (quantum x) (of_int (round_half_even (scale2 (- quantum x) x))))"

definition overflows :: "real \<Rightarrow> bool" where
  "overflows x = (2 ^ 1024 \<le> \<bar>fl x\<bar>)"

section \<open>PriceContextCalculator\<close>

subsection \<open>Selecting a variant\<close>

text \<open>
  \<open>calculateVariantScore(variant, context)\<close>, on finite doubles. The difference
  \<open>price - median\<close> is rounded and may overflow to an infinity; then \<open>Math.abs\<close> and
  \<open>+ 1\<close> keep it infinite and the distance score is \<open>1 / Infinity\<close>, that is \<open>0\<close>.
  Otherwise \<open>Math.abs(price - median) + 1\<close> lies between 1 and the greatest double, so
  the division is defined and at most 1. The comparisons are exact. \<open>1.5\<close> and \<open>0.5\<close>
  are doubles; \<open>1.3\<close> and \<open>0.7\<close> are not and denote their nearest doubles. The product
  is evaluated from the left, each multiplication rounded.
\<close>

definition calculateVariantScore :: "variant \<Rightarrow> page_context \<Rightarrow> real" where
  "calculateVariantScore v context =
     (let p = discountedValue (price v);
          distanceScore = (if overflows (p - median context) then 0
                           else fl (1 / fl (\<bar>fl (p - median context)\<bar> + 1)));
          inRange = (if p \<ge> lowerBound context \<and> p \<le> upperBound context then 1.5 else 0.5);
          productTypeMultiplier = (if isMainProduct v then fl 1.3 else fl 0.7)
      in fl (fl (distanceScore * inRange) * productTypeMultiplier))"

text \<open>
  The score as claim C1 words it, the same expression in exact arithmetic. It is not
  part of the script; the script is compared with it below.
\<close>

definition score_as_specified :: "variant \<Rightarrow> page_context \<Rightarrow> real" where
  "score_as_specified v context =
     (1 / (\<bar>discountedValue (price v) - median context\<bar> + 1))
       * (if lowerBound context \<le> discountedValue (price v)
             \<and> discountedValue (price v) \<le> upperBound context then 1.5 else 0.5)
       * (if isMainProduct v then 1.3 else 0.7)"

text \<open>\<open>xs[0]\<close>: \<open>undefined\<close> (here \<open>None\<close>) on an empty array.\<close>

definition first_element :: "'a list \<Rightarrow> 'a option" where
  "first_element xs = (case xs of [] \<Rightarrow> None | x # _ \<Rightarrow> Some x)"

text \<open>
  \<open>xs.sort((a, b) => b.score - a.score)\<close>: the scores are finite doubles between 0 and
  2, and the rounded difference of two such doubles is zero only if they are equal and
  has the sign of the exact difference otherwise. The comparator therefore orders by
  decreasing score, and \<open>Array.prototype.sort\<close> being stable, the result is the stable
  sort by decreasing score.
\<close>

definition sort_by_score_desc :: "('a \<times> real) list \<Rightarrow> ('a \<times> real) list" where
  "sort_by_score_desc xs = sort_key (\<lambda>x. - snd x) xs"

text \<open>
  \<open>findBestMatchingVariant(variants, context)\<close>. The object returned is the variant
  itself on the early return, and a copy of a variant carrying the additional field
  \<open>score\<close> otherwise; it is modelled as the variant paired with the optional score.
\<close>

definition findBestMatchingVariant ::
  "variant list \<Rightarrow> page_context option \<Rightarrow> (variant \<times> real option) option" where
  "findBestMatchingVariant vs context =
     (case context of
        None \<Rightarrow> map_option (\<lambda>v. (v, None)) (first_element vs)
      | Some c \<Rightarrow>
          if length vs = 0 then map_option (\<lambda>v. (v, None)) (first_element vs)
          else map_option (\<lambda>x. (fst x, Some (snd x)))
                 (first_element
                    (sort_by_score_desc (map (\<lambda>v. (v, calculateVariantScore v c)) vs))))"

subsection \<open>Page context\<close>

definition is_digit :: "char \<Rightarrow> bool" where
  "is_digit c = (48 \<le> (of_char c :: nat) \<and> (of_char c :: nat) \<le> 57)"

definition digit_value :: "char \<Rightarrow> nat" where
  "digit_value c = of_char c - 48"

definition digits_value :: "string \<Rightarrow> nat" where
  "digits_value ds = foldl (\<lambda>acc c. acc * 10 + digit_value c) 0 ds"

text \<open>
  \<open>parseFloat\<close> on a string made of digits and dots only (all that the callers pass):
  the longest prefix of the form digits, optionally a dot and digits; \<open>NaN\<close> (here
  \<open>None\<close>) when that prefix holds no digit.
\<close>

definition parseFloat_digits :: "string \<Rightarrow> real option" where
  "parseFloat_digits s =
     (let ip = takeWhile is_digit s; rest = dropWhile is_digit s
      in case rest of
           c # r \<Rightarrow>
             if c = CHR ''.'' then
               (let fp = takeWhile is_digit r
                in if ip = [] \<and> fp = [] then None
                   else Some (real (digits_value ip) + real (digits_value fp) / 10 ^ length fp))
             else if ip = [] then None else Some (real (digits_value ip))
         | [] \<Rightarrow> if ip = [] then None else Some (real (digits_value ip)))"

definition price_char :: "char \<Rightarrow> bool" where
  "price_char c = (is_digit c \<or> c = CHR '','' \<or> c = CHR ''.'')"

text \<open>
  \<open>extractPriceValue(text)\<close>: the first match of \<open>/[\d,.]+/\<close>, commas removed, parsed;
  \<open>0\<close> without a match.
\<close>

definition extractPriceValue :: "string \<Rightarrow> real option" where
  "extractPriceValue text =
     (let m = takeWhile price_char (dropWhile (\<lambda>c. \<not> price_char c) text)
      in if m = [] then Some 0 else parseFloat_digits (filter (\<lambda>c. c \<noteq> CHR '','') m))"

text \<open>
  \<open>calculateMedian(prices)\<close>, called on a non-empty sorted array only (on the empty array
  JavaScript yields \<open>NaN\<close>, where the value here is unspecified).
\<close>

definition calculateMedian :: "real list \<Rightarrow> real" where
  "calculateMedian prices =
     (let mid = length prices div 2
      in if length prices mod 2 = 0 then (prices ! (mid - 1) + prices ! mid) / 2
         else prices ! mid)"

definition calculateVariance :: "real list \<Rightarrow> real" where
  "calculateVariance prices =
     (let mean = sum_list prices / real (length prices)
      in sqrt (foldl (\<lambda>sq n. sq + (n - mean) ^ 2) 0 prices / real (length prices)))"

definition cluster_prices :: "real list \<Rightarrow> nat \<Rightarrow> real list" where
  "cluster_prices prices i =
     (let step = (last prices - hd prices) / 5;
          lo = hd prices + step * real i;
          hi = hd prices + step * (real i + 1)
      in filter (\<lambda>p. p \<ge> lo \<and> p < hi) prices)"

definition findPriceClusters :: "real list \<Rightarrow> cluster list" where
  "findPriceClusters prices =
     (let step = (last prices - hd prices) / 5
      in concat (map (\<lambda>i.
           let lo = hd prices + step * real i;
               hi = hd prices + step * (real i + 1);
               clusterPrices = cluster_prices prices i
           in if length clusterPrices > 0
              then [\<lparr>centerPrice = (lo + hi) / 2, count = length clusterPrices,
                     variance = calculateVariance clusterPrices\<rparr>]
              else []) [0..<5]))"

definition calculateDistribution :: "real list \<Rightarrow> distribution" where
  "calculateDistribution prices =
     \<lparr>dist_min = Min (set prices), dist_max = Max (set prices),
      clusters = findPriceClusters prices\<rparr>"

text \<open>
  The prices a page yields: one entry per product card, \<open>None\<close> for a card without a
  price element, otherwise the element's text. A price that parses to \<open>0\<close> or \<open>NaN\<close> is
  dropped by the truthiness test.
\<close>

definition extracted_prices :: "string option list \<Rightarrow> real list" where
  "extracted_prices cards =
     concat (map (\<lambda>card.
        case card of
          None \<Rightarrow> []
        | Some text \<Rightarrow>
            (case extractPriceValue text of
               None \<Rightarrow> []
             | Some p \<Rightarrow> if p \<noteq> 0 then [p] else [])) cards)"

definition calculatePageContext :: "string option list \<Rightarrow> page_context option" where
  "calculatePageContext cards =
     (let prices = extracted_prices cards
      in if length prices = 0 then None
         else
           let sorted = sort prices;
               m = calculateMedian sorted;
               threshold = m * 0.3
           in Some \<lparr>median = m, lowerBound = m - threshold, upperBound = m + threshold,
                    distribution = calculateDistribution sorted\<rparr>)"

definition four_cards :: "string option list" where
  "four_cards = [Some ''$30.00'', Some ''US $10'', None, Some ''$40'', Some ''$20.00 sold'']"

section \<open>DOMEnhancer\<close>




text \<open>\<open>x || 0\<close> on an optional number.\<close>

definition or_zero :: "real option \<Rightarrow> real" where
  "or_zero x = (case x of None \<Rightarrow> 0 | Some v \<Rightarrow> if v \<noteq> 0 then v else 0)"





text \<open>The example of the specification: page median 44, an accessory at 5, the item at 45.\<close>

definition plain_variant :: "string \<Rightarrow> real \<Rightarrow> bool \<Rightarrow> variant" where
  "plain_variant i p m =
     \<lparr>variant_id = Some i, name = i,
      price = \<lparr>price_value = p, formattedPrice = [], discountedValue = p,
               discountedFormattedPrice = [], discount = []\<rparr>,
      shipping = \<lparr>cost = 0, shipping_formattedPrice = [], freeThreshold = None\<rparr>,
      stock = 999, isMainProduct = m\<rparr>"

definition context_100 :: page_context where
  "context_100 =
     \<lparr>median = 100, lowerBound = 70, upperBound = 130,
      distribution = \<lparr>dist_min = 100, dist_max = 100, clusters = []\<rparr>\<rparr>"

definition context_44 :: page_context where
  "context_44 =
     \<lparr>median = 44, lowerBound = fl (44 * fl 0.7), upperBound = fl (44 * fl 1.3),
      distribution = \<lparr>dist_min = 44, dist_max = 44, clusters = []\<rparr>\<rparr>"


section \<open>DataManager: classifying and parsing variants\<close>

text \<open>\<open>toLowerCase\<close> on ASCII text, and \<open>split\<close> on a one-character separator.\<close>

definition toLowerCase :: "string \<Rightarrow> string" where
  "toLowerCase s =
     map (\<lambda>c. if 65 \<le> (of_char c :: nat) \<and> (of_char c :: nat) \<le> 90
              then char_of ((of_char c :: nat) + 32) else c) s"

fun split_on :: "char \<Rightarrow> string \<Rightarrow> string list" where
  "split_on sep [] = [[]]"
| "split_on sep (c # cs) =
     (if c = sep then [] # split_on sep cs
      else (case split_on sep cs of
              [] \<Rightarrow> [[c]]
            | part # parts \<Rightarrow> (c # part) # parts))"

text \<open>\<open>parts[1] || 'Default'\<close>.\<close>

definition second_or_default :: "string list \<Rightarrow> string" where
  "second_or_default parts =
     (if 1 < length parts \<and> parts ! 1 \<noteq> [] then parts ! 1 else ''Default'')"

definition accessoryKeywords :: "string list" where
  "accessoryKeywords =
     [''case'', ''cover'', ''protector'', ''cable'', ''adapter'', ''charger'',
      ''holder'', ''stand'', ''accessory'', ''kit'', ''pedal'', ''spare'',
      ''replacement'', ''tool'', ''bag'', ''box'']"

definition isAccessory :: "string \<Rightarrow> bool" where
  "isAccessory nm = list_ex (\<lambda>keyword. includes_str nm keyword) accessoryKeywords"

text \<open>
  Optional members: \<open>None\<close> stands for a member that is missing (or \<open>null\<close>, or \<open>NaN\<close> for
  a number). \<open>a || b\<close> skips a zero number and an empty string.
\<close>

definition num_or :: "real option \<Rightarrow> real option \<Rightarrow> real option" where
  "num_or a b = (case a of None \<Rightarrow> b | Some x \<Rightarrow> if x \<noteq> 0 then Some x else b)"

definition int_or :: "int option \<Rightarrow> int option \<Rightarrow> int option" where
  "int_or a b = (case a of None \<Rightarrow> b | Some x \<Rightarrow> if x \<noteq> 0 then Some x else b)"

definition str_or :: "string option \<Rightarrow> string option \<Rightarrow> string option" where
  "str_or a b = (case a of None \<Rightarrow> b | Some x \<Rightarrow> if x \<noteq> [] then Some x else b)"

subsection \<open>Primary tier: \<open>parseProductData\<close>\<close>

record api_sku =
  skuIdStr :: "string option"
  skuId :: "string option"
  skuAttr :: "string option"
  skuStock :: "int option"
  availQuantity :: "int option"

record api_price =
  originalPrice_value :: "real option"
  originalPrice_formatedAmount :: "string option"
  salePriceString :: "string option"
  api_discount :: "string option"

definition getSkuName :: "api_sku \<Rightarrow> string" where
  "getSkuName sku =
     (let attr = (case str_or (skuAttr sku) None of None \<Rightarrow> [] | Some a \<Rightarrow> a);
          parts = split_on CHR ''#'' attr
      in second_or_default parts)"

definition isMainProductBySku :: "api_sku \<Rightarrow> bool" where
  "isMainProductBySku sku =
     (let nm = toLowerCase (case str_or (skuAttr sku) None of None \<Rightarrow> [] | Some a \<Rightarrow> a)
      in \<not> isAccessory nm)"

text \<open>\<open>DataManager.extractPriceValue(priceString)\<close>: as the calculator's, with \<open>0\<close> for a
  missing or empty string.\<close>

definition extractPriceValue_opt :: "string option \<Rightarrow> real option" where
  "extractPriceValue_opt priceString =
     (case str_or priceString None of None \<Rightarrow> Some 0 | Some t \<Rightarrow> extractPriceValue t)"

text \<open>
  The function mapped over \<open>skuPaths\<close>, followed by \<open>addShippingInfo\<close>, which gives every
  variant the shipping data of the page (\<open>base\<close>). \<open>priceMap\<close> is the dictionary
  \<open>skuIdStrPriceInfoMap\<close>.
\<close>

definition api_sku_variant ::
  "(string \<rightharpoonup> api_price) \<Rightarrow> shipping_info \<Rightarrow> api_sku \<Rightarrow> variant" where
  "api_sku_variant priceMap base sku =
     (let skuId = str_or (skuIdStr sku) (skuId sku);
          priceInfo = (case Option.bind skuId priceMap of
                         None \<Rightarrow> \<lparr>originalPrice_value = None, originalPrice_formatedAmount = None,
                                   salePriceString = None, api_discount = None\<rparr>
                       | Some info \<Rightarrow> info)
      in \<lparr>variant_id = skuId,
          name = getSkuName sku,
          price =
            \<lparr>price_value = or_zero (originalPrice_value priceInfo),
             formattedPrice =
               (case str_or (originalPrice_formatedAmount priceInfo) None of
                  None \<Rightarrow> ''$0.00'' | Some t \<Rightarrow> t),
             discountedValue =
               or_zero (num_or (extractPriceValue_opt (salePriceString priceInfo))
                               (originalPrice_value priceInfo)),
             discountedFormattedPrice =
               (case str_or (salePriceString priceInfo) (originalPrice_formatedAmount priceInfo) of
                  None \<Rightarrow> ''$0.00'' | Some t \<Rightarrow> t),
             discount = (case str_or (api_discount priceInfo) None of None \<Rightarrow> [] | Some t \<Rightarrow> t)\<rparr>,
          shipping = base,
          stock = (case int_or (skuStock sku) (availQuantity sku) of None \<Rightarrow> 999 | Some n \<Rightarrow> n),
          isMainProduct = isMainProductBySku sku\<rparr>)"

subsection \<open>Fallback tier: \<open>extractProductDataFromHTML\<close>\<close>

record html_price =
  skuAmount_value :: "real option"
  skuPrice :: "real option"
  skuActivityAmount_value :: "real option"
  actSkuPrice :: "real option"
  html_discount :: "string option"
  html_availQuantity :: "int option"

text \<open>
  An element of \<open>skuPriceList\<close>: its own members (\<open>own\<close> holds the price members read
  from the element itself when it has no \<open>skuVal\<close>).
\<close>

record html_sku =
  html_skuId :: "string option"
  html_id :: "string option"
  html_skuAttr :: "string option"
  skuVal :: "html_price option"
  own :: html_price
  inventory :: "int option"

text \<open>
  The function mapped over the list. \<open>formatPrice\<close> stands for \<open>utils.formatPrice\<close>, the
  currency formatting of the runtime (\<open>Intl.NumberFormat\<close>).
\<close>

definition html_sku_variant :: "(real \<Rightarrow> string) \<Rightarrow> html_sku \<Rightarrow> variant" where
  "html_sku_variant formatPrice sku =
     (let skuId = str_or (html_skuId sku) (html_id sku);
          skuName = second_or_default
                      (case html_skuAttr sku of None \<Rightarrow> [] | Some a \<Rightarrow> split_on CHR ''#'' a);
          priceInfo = (case skuVal sku of Some v \<Rightarrow> v | None \<Rightarrow> own sku);
          v = or_zero (num_or (skuAmount_value priceInfo) (skuPrice priceInfo));
          dv = or_zero (num_or (num_or (skuActivityAmount_value priceInfo) (actSkuPrice priceInfo))
                               (skuPrice priceInfo))
      in \<lparr>variant_id = skuId,
          name = skuName,
          price =
            \<lparr>price_value = v, formattedPrice = formatPrice v,
             discountedValue = dv, discountedFormattedPrice = formatPrice dv,
             discount = (case str_or (html_discount priceInfo) None of None \<Rightarrow> [] | Some t \<Rightarrow> t)\<rparr>,
          shipping = \<lparr>cost = 0, shipping_formattedPrice = ''$0.00'', freeThreshold = None\<rparr>,
          stock = (case int_or (Option.bind (skuVal sku) html_availQuantity) (inventory sku) of
                     None \<Rightarrow> 999 | Some n \<Rightarrow> n),
          isMainProduct = True\<rparr>)"

definition no_html_price :: html_price where
  "no_html_price =
     \<lparr>skuAmount_value = None, skuPrice = Some 2.5, skuActivityAmount_value = None,
      actSkuPrice = None, html_discount = None, html_availQuantity = None\<rparr>"

definition phone_case_sku :: html_sku where
  "phone_case_sku =
     \<lparr>html_skuId = Some ''12000029'', html_id = None,
      html_skuAttr = Some ''14:350685#Phone Case'',
      skuVal = None, own = no_html_price, inventory = None\<rparr>"

definition with_box_sku :: api_sku where
  "with_box_sku =
     \<lparr>skuIdStr = Some ''12000030'', skuId = None,
      skuAttr = Some ''14:193#Black;200007763:201336100#With Box'',
      skuStock = None, availQuantity = None\<rparr>"

section \<open>DataManager: resolving a product\<close>

text \<open>
  \<open>fetchProductData(productId)\<close> reads the outside world in three places, which the model
  takes as arguments: \<open>productData\<close>, the basic product read off the visible product card
  (\<open>None\<close> without a card); \<open>primary\<close>, the outcome of the rate-limited API call followed
  by \<open>parseProductData\<close> (\<open>Inl\<close> what was thrown); \<open>fallback\<close>, the outcome of the
  rate-limited page fetch (\<open>Inr None\<close> when the page yields no data).
\<close>

definition mergeBasic :: "product \<Rightarrow> product option \<Rightarrow> product" where
  "mergeBasic fetched productData =
     (case productData of
        None \<Rightarrow> fetched
      | Some basic \<Rightarrow>
          fetched\<lparr>variants := (if length (variants fetched) > 0 then variants fetched
                               else variants basic),
                  title := (if title fetched \<noteq> [] then title fetched else title basic)\<rparr>)"

text \<open>
  The inner \<open>try\<close> statement with its \<open>catch (apiError)\<close> block: the value of \<open>fetchedData\<close>
  when it is left, and what it throws, if anything.
\<close>

definition fetch_tiers ::
  "product option \<Rightarrow> js_error + product \<Rightarrow> js_error + product option
     \<Rightarrow> product option \<times> js_error option" where
  "fetch_tiers productData primary fallback =
     (case primary of
        Inr fullProductData \<Rightarrow> (Some (mergeBasic fullProductData productData), None)
      | Inl apiError \<Rightarrow>
          let fetched1 = (case fallback of
                            Inr (Some pageData) \<Rightarrow> Some (mergeBasic pageData productData)
                          | Inr None \<Rightarrow> None
                          | Inl pageError \<Rightarrow> None);
              fetched2 = (case productData of Some basic \<Rightarrow> Some basic | None \<Rightarrow> fetched1)
          in (case fetched2 of
                None \<Rightarrow> (None, Some apiError)
              | Some d \<Rightarrow> (Some d, None)))"

text \<open>The outer \<open>catch (fetchParseError)\<close> block: the value of \<open>fetchedData\<close> after it.\<close>

definition fetch_outer_catch ::
  "product option \<Rightarrow> product option \<times> js_error option \<Rightarrow> product option" where
  "fetch_outer_catch productData r =
     (case snd r of
        None \<Rightarrow> fst r
      | Some fetchParseError \<Rightarrow>
          if productData \<noteq> None \<and> fst r = None then productData
          else if fst r = None then None
          else fst r)"

text \<open>
  The whole method: what the returned promise settles with (\<open>Inl\<close> a rejection, \<open>Inr\<close> the
  value it resolves with, \<open>None\<close> being \<open>null\<close>) and the cache afterwards. \<open>tget\<close> is the
  clock at the cache lookup, \<open>t1\<close> and \<open>t2\<close> the clock readings of the cache write.
\<close>

text \<open>A tier outcome that delivers no product: a failure, or no data.\<close>

definition yields_nothing :: "js_error + product option \<Rightarrow> bool" where
  "yields_nothing r = (case r of Inr (Some p) \<Rightarrow> False | Inr None \<Rightarrow> True | Inl e \<Rightarrow> True)"

definition cacheKey :: "string \<Rightarrow> string" where
  "cacheKey pid = ''product_'' @ pid"

definition fetchProductData ::
  "product cache_state \<Rightarrow> string \<Rightarrow> product option \<Rightarrow> js_error + product
     \<Rightarrow> js_error + product option \<Rightarrow> int \<Rightarrow> int \<Rightarrow> int
     \<Rightarrow> (js_error + product option) \<times> product cache_state" where
  "fetchProductData s pid productData primary fallback tget t1 t2 =
     (let looked = CacheManager_get s (cacheKey pid) tget
      in case fst looked of
           Some cachedData \<Rightarrow> (Inr (Some cachedData), snd looked)
         | None \<Rightarrow>
             (case fetch_outer_catch productData (fetch_tiers productData primary fallback) of
                Some fetchedData \<Rightarrow>
                  (Inr (Some fetchedData),
                   CacheManager_set (snd looked) (cacheKey pid) fetchedData
                     (Some CACHE_CONFIG_variants) t1 t2)
              | None \<Rightarrow> (Inr None, snd looked)))"

definition no_products :: "product cache_state" where
  "no_products = \<lparr>cache = [], storage = None, isCacheDisabled = False\<rparr>"

definition no_products_disabled :: "product cache_state" where
  "no_products_disabled = \<lparr>cache = [], storage = None, isCacheDisabled = True\<rparr>"

definition some_product :: product where
  "some_product =
     \<lparr>productId = ''1005'', title = ''Lamp'', variants = [plain_variant ''default'' 45 True]\<rparr>"

definition api_failure :: js_error where
  "api_failure = JsError (Some ''FAIL_SYS_USER_VALIDATE::challenge'')"

section \<open>Request signing: the digest function of the script\<close>

text \<open>
  The function \<open>md5\<close> of the script works on JavaScript strings and numbers. A string is
  modelled as the list of its UTF-16 code units (\<open>charCodeAt\<close>), each a natural number
  below 65536. The bitwise operators of JavaScript convert their operands to 32-bit
  integers, so every intermediate value is a 32-bit word: or, and, exclusive or and
  complement are the bitwise operations of words, the left shift is \<open>push_bit\<close>, the
  unsigned right shift is \<open>drop_bit\<close> and the sign-propagating right shift is
  \<open>signed_drop_bit\<close>. Sums that the script forms before such a conversion
  (\<open>a + b\<close> in \<open>add32\<close>, the four summands in \<open>md5blk\<close>, \<open>n * 8\<close>) are exact in double
  precision, so they agree with the sums of words modulo \<open>2 ^ 32\<close>.
\<close>

type_synonym u32 = "32 word"
type_synonym md5_state = "u32 \<times> u32 \<times> u32 \<times> u32"

definition add32 :: "u32 \<Rightarrow> u32 \<Rightarrow> u32" where
  "add32 a b = (a + b) AND 0xFFFFFFFF"

definition cmn :: "u32 \<Rightarrow> u32 \<Rightarrow> u32 \<Rightarrow> u32 \<Rightarrow> nat \<Rightarrow> u32 \<Rightarrow> u32" where
  "cmn q a b x s t =
     (let a' = add32 (add32 a q) (add32 x t)
      in add32 (push_bit s a' OR drop_bit (32 - s) a') b)"

definition ff :: "u32 \<Rightarrow> u32 \<Rightarrow> u32 \<Rightarrow> u32 \<Rightarrow> u32 \<Rightarrow> nat \<Rightarrow> u32 \<Rightarrow> u32" where
  "ff a b c d x s t = cmn ((b AND c) OR (NOT b AND d)) a b x s t"

definition gg :: "u32 \<Rightarrow> u32 \<Rightarrow> u32 \<Rightarrow> u32 \<Rightarrow> u32 \<Rightarrow> nat \<Rightarrow> u32 \<Rightarrow> u32" where
  "gg a b c d x s t = cmn ((b AND d) OR (c AND NOT d)) a b x s t"

definition hh :: "u32 \<Rightarrow> u32 \<Rightarrow> u32 \<Rightarrow> u32 \<Rightarrow> u32 \<Rightarrow> nat \<Rightarrow> u32 \<Rightarrow> u32" where
  "hh a b c d x s t = cmn (b XOR c XOR d) a b x s t"

definition ii :: "u32 \<Rightarrow> u32 \<Rightarrow> u32 \<Rightarrow> u32 \<Rightarrow> u32 \<Rightarrow> nat \<Rightarrow> u32 \<Rightarrow> u32" where
  "ii a b c d x s t = cmn (c XOR (b OR NOT d)) a b x s t"

text \<open>
  \<open>md5cycle\<close> is a straight line of 64 assignments such as
  \<open>a = ff(a, b, c, d, k[0], 7, -680876936)\<close>. Each assignment is recorded as the
  register it assigns, the function it calls, the index into \<open>k\<close>, the shift and the
  constant; the arguments are always the four registers, rotated so that the assigned
  one comes first. \<open>md5_program\<close> lists the 64 assignments in the order of the source, and
  \<open>md5cycle\<close> runs them and then adds the old state.
\<close>

datatype reg = RegA | RegB | RegC | RegD

datatype mix = FF | GG | HH | II

fun mix_fn :: "mix \<Rightarrow> u32 \<Rightarrow> u32 \<Rightarrow> u32 \<Rightarrow> u32 \<Rightarrow> u32 \<Rightarrow> nat \<Rightarrow> u32 \<Rightarrow> u32" where
  "mix_fn FF = ff"
| "mix_fn GG = gg"
| "mix_fn HH = hh"
| "mix_fn II = ii"

type_synonym instr = "reg \<times> mix \<times> nat \<times> nat \<times> u32"

fun exec :: "u32 list \<Rightarrow> instr \<Rightarrow> md5_state \<Rightarrow> md5_state" where
  "exec k (RegA, m, i, s, t) (a, b, c, d) = (mix_fn m a b c d (k ! i) s t, b, c, d)"
| "exec k (RegD, m, i, s, t) (a, b, c, d) = (a, b, c, mix_fn m d a b c (k ! i) s t)"
| "exec k (RegC, m, i, s, t) (a, b, c, d) = (a, b, mix_fn m c d a b (k ! i) s t, d)"
| "exec k (RegB, m, i, s, t) (a, b, c, d) = (a, mix_fn m b c d a (k ! i) s t, c, d)"

definition md5_program :: "instr list" where
  "md5_program =
     [(RegA, FF, 0, 7, - 680876936),
      (RegD, FF, 1, 12, - 389564586),
      (RegC, FF, 2, 17, 606105819),
      (RegB, FF, 3, 22, - 1044525330),
      (RegA, FF, 4, 7, - 176418897),
      (RegD, FF, 5, 12, 1200080426),
      (RegC, FF, 6, 17, - 1473231341),
      (RegB, FF, 7, 22, - 45705983),
      (RegA, FF, 8, 7, 1770035416),
      (RegD, FF, 9, 12, - 1958414417),
      (RegC, FF, 10, 17, - 42063),
      (RegB, FF, 11, 22, - 1990404162),
      (RegA, FF, 12, 7, 1804603682),
      (RegD, FF, 13, 12, - 40341101),
      (RegC, FF, 14, 17, - 1502002290),
      (RegB, FF, 15, 22, 1236535329),
      (RegA, GG, 1, 5, - 165796510),
      (RegD, GG, 6, 9, - 1069501632),
      (RegC, GG, 11, 14, 643717713),
      (RegB, GG, 0, 20, - 373897302),
      (RegA, GG, 5, 5, - 701558691),
      (RegD, GG, 10, 9, 38016083),
      (RegC, GG, 15, 14, - 660478335),
      (RegB, GG, 4, 20, - 405537848),
      (RegA, GG, 9, 5, 568446438),
      (RegD, GG, 14, 9, - 1019803690),
      (RegC, GG, 3, 14, - 187363961),
      (RegB, GG, 8, 20, 1163531501),
      (RegA, GG, 13, 5, - 1444681467),
      (RegD, GG, 2, 9, - 51403784),
      (RegC, GG, 7, 14, 1735328473),
      (RegB, GG, 12, 20, - 1926607734),
      (RegA, HH, 5, 4, - 378558),
      (RegD, HH, 8, 11, - 2022574463),
      (RegC, HH, 11, 16, 1839030562),
      (RegB, HH, 14, 23, - 35309556),
      (RegA, HH, 1, 4, - 1530992060),
      (RegD, HH, 4, 11, 1272893353),
      (RegC, HH, 7, 16, - 155497632),
      (RegB, HH, 10, 23, - 1094730640),
      (RegA, HH, 13, 4, 681279174),
      (RegD, HH, 0, 11, - 358537222),
      (RegC, HH, 3, 16, - 722521979),
      (RegB, HH, 6, 23, 76029189),
      (RegA, HH, 9, 4, - 640364487),
      (RegD, HH, 12, 11, - 421815835),
      (RegC, HH, 15, 16, 530742520),
      (RegB, HH, 2, 23, - 995338651),
      (RegA, II, 0, 6, - 198630844),
      (RegD, II, 7, 10, 1126891415),
      (RegC, II, 14, 15, - 1416354905),
      (RegB, II, 5, 21, - 57434055),
      (RegA, II, 12, 6, 1700485571),
      (RegD, II, 3, 10, - 1894986606),
      (RegC, II, 10, 15, - 1051523),
      (RegB, II, 1, 21, - 2054922799),
      (RegA, II, 8, 6, 1873313359),
      (RegD, II, 15, 10, - 30611744),
      (RegC, II, 6, 15, - 1560198380),
      (RegB, II, 13, 21, 1309151649),
      (RegA, II, 4, 6, - 145523070),
      (RegD, II, 11, 10, - 1120210379),
      (RegC, II, 2, 15, 718787259),
      (RegB, II, 9, 21, - 343485551)]"

fun add_state :: "md5_state \<Rightarrow> md5_state \<Rightarrow> md5_state" where
  "add_state (a, b, c, d) (x0, x1, x2, x3) = (add32 a x0, add32 b x1, add32 c x2, add32 d x3)"

definition md5cycle :: "md5_state \<Rightarrow> u32 list \<Rightarrow> md5_state" where
  "md5cycle x k = add_state (fold (exec k) md5_program x) x"

text \<open>
  \<open>md5blk\<close> is only called on substrings of exactly 64 code units. \<open>md51\<close> runs
  \<open>md5cycle\<close> over the full 64-unit blocks, ORs the remaining code units and the marker
  \<open>0x80\<close> into a tail of 16 words, flushes the tail when more than 55 units remain, and
  stores the length in bits, \<open>n * 8\<close>, in word 14. Word 15 stays zero.
\<close>

definition md5blk :: "nat list \<Rightarrow> u32 list" where
  "md5blk s =
     map (\<lambda>i. of_nat (s ! (4 * i)) + push_bit 8 (of_nat (s ! (4 * i + 1)))
              + push_bit 16 (of_nat (s ! (4 * i + 2))) + push_bit 24 (of_nat (s ! (4 * i + 3))))
       [0..<16]"

definition md5_init :: md5_state where
  "md5_init = (1732584193, - 271733879, - 1732584194, 271733878)"

definition or_into :: "u32 list \<Rightarrow> nat \<Rightarrow> u32 \<Rightarrow> u32 list" where
  "or_into ws i v = ws[i div 4 := (ws ! (i div 4)) OR push_bit ((i mod 4) * 8) v]"

definition zero_tail :: "u32 list" where
  "zero_tail = [0, 0, 0, 0, 0, 0, 0, 0, 0, 0, 0, 0, 0, 0, 0, 0]"

definition md51 :: "nat list \<Rightarrow> md5_state" where
  "md51 s =
     (let n = length s;
          state = fold (\<lambda>j st. md5cycle st (md5blk (take 64 (drop (64 * j) s))))
                    [0..<n div 64] md5_init;
          s' = drop (64 * (n div 64)) s;
          tail = fold (\<lambda>i ws. or_into ws i (of_nat (s' ! i))) [0..<length s'] zero_tail;
          i = length s';
          tail = or_into tail i 0x80;
          state = (if i > 55 then md5cycle state tail else state);
          tail = (if i > 55 then zero_tail else tail);
          tail = tail[14 := of_nat (n * 8)]
      in md5cycle state tail)"

definition hex_chr :: "u32 \<Rightarrow> char" where
  "hex_chr n = ''0123456789abcdef'' ! unat n"

definition rhex :: "u32 \<Rightarrow> string" where
  "rhex n =
     concat (map (\<lambda>j. [hex_chr (signed_drop_bit (j * 8 + 4) n AND 0x0F),
                        hex_chr (signed_drop_bit (j * 8) n AND 0x0F)]) [0..<4])"

fun hex :: "md5_state \<Rightarrow> string" where
  "hex (a, b, c, d) = rhex a @ rhex b @ rhex c @ rhex d"

text \<open>
  \<open>unescape(encodeURIComponent(string))\<close> yields the UTF-8 encoding of the string, one
  code unit per byte; \<open>encodeURIComponent\<close> throws a \<open>URIError\<close> on a lone surrogate.
  \<open>md5\<close> takes this route when its regular expression, the character class from
  \<open>0x80\<close> to \<open>0xFF\<close>, finds a code unit between 128 and 255, and hashes the code units
  as they are otherwise.
\<close>

fun utf8_encode :: "nat list \<Rightarrow> js_error + nat list" where
  "utf8_encode [] = Inr []"
| "utf8_encode (c # cs) =
     (if c < 0x80 then map_sum id (\<lambda>r. c # r) (utf8_encode cs)
      else if c < 0x800 then
        map_sum id (\<lambda>r. (0xC0 + c div 64) # (0x80 + c mod 64) # r) (utf8_encode cs)
      else if 0xD800 \<le> c \<and> c < 0xDC00 then
        (case cs of
           [] \<Rightarrow> Inl (JsError (Some ''URI malformed''))
         | d # ds \<Rightarrow>
             if 0xDC00 \<le> d \<and> d < 0xE000 then
               (let cp = 0x10000 + (c - 0xD800) * 1024 + (d - 0xDC00)
                in map_sum id (\<lambda>r. (0xF0 + cp div 262144) # (0x80 + cp div 4096 mod 64)
                                      # (0x80 + cp div 64 mod 64) # (0x80 + cp mod 64) # r)
                     (utf8_encode ds))
             else Inl (JsError (Some ''URI malformed'')))
      else if 0xDC00 \<le> c \<and> c < 0xE000 then Inl (JsError (Some ''URI malformed''))
      else map_sum id (\<lambda>r. (0xE0 + c div 4096) # (0x80 + c div 64 mod 64) # (0x80 + c mod 64) # r)
             (utf8_encode cs))"

definition md5 :: "nat list \<Rightarrow> js_error + string" where
  "md5 string =
     (if list_ex (\<lambda>c. 0x80 \<le> c \<and> c \<le> 0xFF) string
      then map_sum id (\<lambda>u. hex (md51 u)) (utf8_encode string)
      else Inr (hex (md51 string)))"

text \<open>
  \<open>generateSign\<close> joins its four arguments with \<open>&\<close> (code unit 38) and hashes the
  result. The arguments are taken as strings; the template literal renders the numeric
  timestamp in decimal digits. The parameters \<open>timestamp\<close> and \<open>data\<close> are written with a
  prime, the cache entry having fields of these names.
\<close>

definition signStr :: "nat list \<Rightarrow> nat list \<Rightarrow> nat list \<Rightarrow> nat list \<Rightarrow> nat list" where
  "signStr token timestamp' appKey data' = token @ [38] @ timestamp' @ [38] @ appKey @ [38] @ data'"

definition generateSign :: "nat list \<Rightarrow> nat list \<Rightarrow> nat list \<Rightarrow> nat list \<Rightarrow> js_error + string" where
  "generateSign token timestamp' appKey data' = md5 (signStr token timestamp' appKey data')"

section \<open>Reference: the MD5 message-digest algorithm of RFC 1321\<close>

text \<open>
  The definitions of this section are written from the standard, not from the script:
  the table of sines \<open>K\<close>, the shift amounts, the order in which the message words are
  used, the four auxiliary functions, the step that replaces \<open>(a, b, c, d)\<close> by
  \<open>(d, b + rotl s (a + f b c d + M[g] + K[i]), b, c)\<close>, the padding with
  the bit \<open>1\<close>, zeros and the length in bits as a 64-bit little-endian number, and the
  output of the four state words in little-endian byte order, two lower-case
  hexadecimal digits per byte. They are the reference the script is compared with.
\<close>

type_synonym byte = "8 word"

definition rfc1321_K :: "u32 list" where
  "rfc1321_K =
     [0xd76aa478, 0xe8c7b756, 0x242070db, 0xc1bdceee,
      0xf57c0faf, 0x4787c62a, 0xa8304613, 0xfd469501,
      0x698098d8, 0x8b44f7af, 0xffff5bb1, 0x895cd7be,
      0x6b901122, 0xfd987193, 0xa679438e, 0x49b40821,
      0xf61e2562, 0xc040b340, 0x265e5a51, 0xe9b6c7aa,
      0xd62f105d, 0x02441453, 0xd8a1e681, 0xe7d3fbc8,
      0x21e1cde6, 0xc33707d6, 0xf4d50d87, 0x455a14ed,
      0xa9e3e905, 0xfcefa3f8, 0x676f02d9, 0x8d2a4c8a,
      0xfffa3942, 0x8771f681, 0x6d9d6122, 0xfde5380c,
      0xa4beea44, 0x4bdecfa9, 0xf6bb4b60, 0xbebfbc70,
      0x289b7ec6, 0xeaa127fa, 0xd4ef3085, 0x04881d05,
      0xd9d4d039, 0xe6db99e5, 0x1fa27cf8, 0xc4ac5665,
      0xf4292244, 0x432aff97, 0xab9423a7, 0xfc93a039,
      0x655b59c3, 0x8f0ccc92, 0xffeff47d, 0x85845dd1,
      0x6fa87e4f, 0xfe2ce6e0, 0xa3014314, 0x4e0811a1,
      0xf7537e82, 0xbd3af235, 0x2ad7d2bb, 0xeb86d391]"

definition rfc1321_S :: "nat list" where
  "rfc1321_S =
     [7, 12, 17, 22, 7, 12, 17, 22, 7, 12, 17, 22, 7, 12, 17, 22,
      5, 9, 14, 20, 5, 9, 14, 20, 5, 9, 14, 20, 5, 9, 14, 20,
      4, 11, 16, 23, 4, 11, 16, 23, 4, 11, 16, 23, 4, 11, 16, 23,
      6, 10, 15, 21, 6, 10, 15, 21, 6, 10, 15, 21, 6, 10, 15, 21]"

definition rfc1321_g :: "nat \<Rightarrow> nat" where
  "rfc1321_g i =
     (if i < 16 then i
      else if i < 32 then (5 * i + 1) mod 16
      else if i < 48 then (3 * i + 5) mod 16
      else (7 * i) mod 16)"

definition rfc1321_f :: "nat \<Rightarrow> u32 \<Rightarrow> u32 \<Rightarrow> u32 \<Rightarrow> u32" where
  "rfc1321_f i x y z =
     (if i < 16 then (x AND y) OR (NOT x AND z)
      else if i < 32 then (x AND z) OR (y AND NOT z)
      else if i < 48 then x XOR y XOR z
      else y XOR (x OR NOT z))"

fun rfc1321_step :: "u32 list \<Rightarrow> nat \<Rightarrow> md5_state \<Rightarrow> md5_state" where
  "rfc1321_step M i (a, b, c, d) =
     (d, b + word_rotl (rfc1321_S ! i) (a + rfc1321_f i b c d + M ! rfc1321_g i + rfc1321_K ! i), b, c)"

fun rfc1321_add :: "md5_state \<Rightarrow> md5_state \<Rightarrow> md5_state" where
  "rfc1321_add (a0, b0, c0, d0) (a, b, c, d) = (a0 + a, b0 + b, c0 + c, d0 + d)"

definition rfc1321_block :: "md5_state \<Rightarrow> u32 list \<Rightarrow> md5_state" where
  "rfc1321_block st M = rfc1321_add st (fold (rfc1321_step M) [0..<64] st)"

definition length_bytes :: "nat \<Rightarrow> byte list" where
  "length_bytes n = map (\<lambda>i. ucast (drop_bit (8 * i) (of_nat (8 * n) :: 64 word))) [0..<8]"

definition rfc1321_pad :: "byte list \<Rightarrow> byte list" where
  "rfc1321_pad msg =
     msg @ [0x80] @ replicate ((119 - length msg mod 64) mod 64) 0 @ length_bytes (length msg)"

definition le32 :: "byte list \<Rightarrow> u32" where
  "le32 bs = foldr (\<lambda>b w. ucast b OR push_bit 8 w) bs 0"

definition block_words :: "byte list \<Rightarrow> u32 list" where
  "block_words blk = map (\<lambda>i. le32 (take 4 (drop (4 * i) blk))) [0..<16]"

definition rfc1321_blocks :: "byte list \<Rightarrow> byte list list" where
  "rfc1321_blocks p = map (\<lambda>j. take 64 (drop (64 * j) p)) [0..<length p div 64]"

definition rfc1321_initial :: md5_state where
  "rfc1321_initial = (0x67452301, 0xefcdab89, 0x98badcfe, 0x10325476)"

definition rfc1321_digest :: "byte list \<Rightarrow> md5_state" where
  "rfc1321_digest msg =
     fold (\<lambda>blk st. rfc1321_block st (block_words blk)) (rfc1321_blocks (rfc1321_pad msg)) rfc1321_initial"

definition le_bytes :: "u32 \<Rightarrow> byte list" where
  "le_bytes w = map (\<lambda>i. ucast (drop_bit (8 * i) w)) [0..<4]"

definition hex_digit :: "nat \<Rightarrow> char" where
  "hex_digit k = ''0123456789abcdef'' ! k"

definition hex_byte :: "byte \<Rightarrow> string" where
  "hex_byte b = [hex_digit (unat b div 16), hex_digit (unat b mod 16)]"

fun digest_bytes :: "md5_state \<Rightarrow> byte list" where
  "digest_bytes (a, b, c, d) = le_bytes a @ le_bytes b @ le_bytes c @ le_bytes d"

definition rfc1321_hex :: "byte list \<Rightarrow> string" where
  "rfc1321_hex msg = concat (map hex_byte (digest_bytes (rfc1321_digest msg)))"

text \<open>
  For the comparison the 64 steps of the standard are grouped in fours; every group
  assigns the registers \<open>a\<close>, \<open>d\<close>, \<open>c\<close>, \<open>b\<close> in this order, as the script does.
\<close>

definition group_mix :: "nat \<Rightarrow> mix" where
  "group_mix q = [FF, GG, HH, II] ! (q div 4)"

definition group_instrs :: "nat \<Rightarrow> instr list" where
  "group_instrs q =
     [(RegA, group_mix q, rfc1321_g (4 * q), rfc1321_S ! (4 * q), rfc1321_K ! (4 * q)),
      (RegD, group_mix q, rfc1321_g (4 * q + 1), rfc1321_S ! (4 * q + 1), rfc1321_K ! (4 * q + 1)),
      (RegC, group_mix q, rfc1321_g (4 * q + 2), rfc1321_S ! (4 * q + 2), rfc1321_K ! (4 * q + 2)),
      (RegB, group_mix q, rfc1321_g (4 * q + 3), rfc1321_S ! (4 * q + 3), rfc1321_K ! (4 * q + 3))]"

section \<open>Properties of the cache\<close>

subsection \<open>Facts about the map operations\<close>

lemma map_delete_length_le: "length (map_delete m k) \<le> length m"
  by (simp add: map_delete_def)

lemma map_set_length:
  "length (map_set m k v) = (if map_has m k then length m else Suc (length m))"
  by (simp add: map_set_def)

lemma map_set_keys:
  "map fst (map_set m k v) = (if map_has m k then map fst m else map fst m @ [k])"
  by (induction m) (auto simp: map_set_def map_has_def)

lemma map_delete_keys: "map fst (map_delete m k) = filter (\<lambda>x. x \<noteq> k) (map fst m)"
  by (induction m) (auto simp: map_delete_def)

lemma map_delete_not_has: "\<not> map_has (map_delete m k) k"
  by (auto simp: map_delete_def map_has_def)

lemma map_get_delete_same: "map_get (map_delete m k) k = None"
  by (induction m) (auto simp: map_get_def map_delete_def)

lemma map_has_delete_other: "k' \<noteq> k \<Longrightarrow> map_has (map_delete m k) k' = map_has m k'"
  by (auto simp: map_delete_def map_has_def)

lemma map_delete_head_distinct:
  "distinct (map fst ((k, v) # rest)) \<Longrightarrow> map_delete ((k, v) # rest) k = rest"
  by (auto simp: map_delete_def intro!: filter_True)

lemma map_of_overwrite:
  "k \<in> fst ` set m \<Longrightarrow> map_of (map (\<lambda>kv. if fst kv = k then (k, v) else kv) m) k = Some v"
  by (induction m) auto

lemma map_of_append_new: "k \<notin> fst ` set m \<Longrightarrow> map_of (m @ [(k, v)]) k = Some v"
  by (induction m) auto

lemma map_get_set_same: "map_get (map_set m k v) k = Some v"
proof (cases "map_has m k")
  case True
  then show ?thesis
    by (simp add: map_get_def map_set_def map_has_def map_of_overwrite)
next
  case False
  then have "map_of (m @ [(k, v)]) k = Some v"
    by (intro map_of_append_new) (simp add: map_has_def)
  with False show ?thesis
    by (simp only: map_get_def map_set_def if_False)
qed

lemma map_set_distinct: "distinct (map fst m) \<Longrightarrow> distinct (map fst (map_set m k v))"
  by (auto simp: map_set_keys map_has_def)

lemma map_delete_distinct: "distinct (map fst m) \<Longrightarrow> distinct (map fst (map_delete m k))"
  by (simp add: map_delete_keys)

lemma evict_oldest_length_le: "length (evict_oldest m) \<le> length m"
  by (simp add: evict_oldest_def map_delete_length_le split: option.splits)

lemma evict_oldest_distinct:
  assumes "distinct (map fst m)" and "m \<noteq> []" and "map_first_key m \<noteq> Some []"
  shows "evict_oldest m = tl m"
proof -
  from assms(2) obtain k v rest where m: "m = (k, v) # rest"
    by (cases m) auto
  with assms(3) have "k \<noteq> []"
    by (simp add: map_first_key_def)
  moreover from assms(1) m have "map_delete m k = rest"
    using map_delete_head_distinct by metis
  ultimately show ?thesis
    using m by (simp add: evict_oldest_def map_first_key_def)
qed

lemma evict_oldest_not_has: "\<not> map_has m k \<Longrightarrow> \<not> map_has (evict_oldest m) k"
  by (auto simp: evict_oldest_def map_has_def map_delete_def split: option.splits)

lemma effective_config_valid:
  "maxEntries cfg \<noteq> 0 \<Longrightarrow> duration cfg \<noteq> 0 \<Longrightarrow> effective_config (Some cfg) = cfg"
  by (simp add: effective_config_def)

lemma set_cache_enabled:
  assumes "\<not> isCacheDisabled s"
  shows "cache (CacheManager_set s key d config t1 t2) =
           map_set (if \<not> map_has (cache s) key
                       \<and> maxEntries (effective_config config) \<le> int (length (cache s))
                    then evict_oldest (cache s) else cache s)
             key \<lparr>data = d, timestamp = t1,
                  expiresAt = t2 + duration (effective_config config)\<rparr>"
  using assms by (simp add: CacheManager_set_def saveToStorage_def Let_def)

lemma set_storage_enabled:
  assumes "\<not> isCacheDisabled s"
  shows "storage (CacheManager_set s key d config t1 t2) =
           Some (cache (CacheManager_set s key d config t1 t2))"
  using assms by (simp add: CacheManager_set_def saveToStorage_def Let_def)

lemma set_disabled_noop: "isCacheDisabled s \<Longrightarrow> CacheManager_set s key d config t1 t2 = s"
  by (simp add: CacheManager_set_def)

lemma set_flag_unchanged:
  "isCacheDisabled (CacheManager_set s key d config t1 t2) = isCacheDisabled s"
  by (simp add: CacheManager_set_def saveToStorage_def Let_def)

lemma set_keeps_distinct:
  assumes "distinct (map fst (cache s))"
  shows "distinct (map fst (cache (CacheManager_set s key d config t1 t2)))"
proof (cases "isCacheDisabled s")
  case True
  with assms show ?thesis by (simp add: set_disabled_noop)
next
  case False
  have "distinct (map fst (evict_oldest (cache s)))"
    using assms by (simp add: evict_oldest_def map_delete_distinct split: option.splits)
  with assms False show ?thesis
    by (simp add: set_cache_enabled map_set_distinct)
qed

lemma two_entries_value:
  "two_entries =
     \<lparr>cache = [(''product_a'', \<lparr>data = 1, timestamp = 0, expiresAt = 1000\<rparr>),
               (''product_b'', \<lparr>data = 2, timestamp = 5, expiresAt = 1005\<rparr>)],
      storage = Some [(''product_a'', \<lparr>data = 1, timestamp = 0, expiresAt = 1000\<rparr>),
               (''product_b'', \<lparr>data = 2, timestamp = 5, expiresAt = 1005\<rparr>)],
      isCacheDisabled = False\<rparr>"
  by (simp add: two_entries_def empty_cache_def cfg_two_def CacheManager_set_def
      effective_config_def map_has_def map_set_def saveToStorage_def Let_def)

subsection \<open>Eviction and the size bound (claim C4)\<close>

text \<open>
  Claim C4, as stated, bounds the size after every call by \<open>config.maxEntries\<close> and
  promises one eviction whenever a new key meets a full cache. The method evicts at most
  one entry per call and does nothing while the cache is disabled, so both fail: a cache
  holding two entries still holds two after a call with \<open>maxEntries = 1\<close>, and a disabled
  cache is left as it was.
\<close>

theorem set_capacity_counterexample:
  "\<not> int (length (cache (CacheManager_set two_entries ''product_c'' 3 cfg_one 9 9)))
       \<le> maxEntries (the cfg_one)
   \<and> CacheManager_set one_entry_disabled ''product_c'' 3 cfg_one 9 9 = one_entry_disabled"
  by (simp add: two_entries_value cfg_one_def CacheManager_set_def effective_config_def
      map_has_def map_set_def map_delete_def map_first_key_def evict_oldest_def
      saveToStorage_def Let_def one_entry_disabled_def one_entry_def)

text \<open>
  Claim C4, amended: for a call made while the cache is enabled, with a configuration
  whose \<open>maxEntries\<close> and \<open>duration\<close> are non-zero, on a map whose oldest key is not the
  empty string: (1) if the size before the call is at most \<open>maxEntries\<close>, so is the size
  after it; (2) if the key is new and the size has reached \<open>maxEntries\<close>, exactly the
  oldest entry (the head of the iteration order) is dropped and the key is appended;
  (3) overwriting a present key leaves the keys and their order as they were; (4) the
  key then maps to the new entry, and the stored snapshot equals the map.
\<close>

theorem set_capacity_and_eviction:
  assumes "\<not> isCacheDisabled s"
    and "config = Some cfg" and "maxEntries cfg \<noteq> 0" and "duration cfg \<noteq> 0"
    and "distinct (map fst (cache s))"
    and "map_first_key (cache s) \<noteq> Some []"
  shows "(int (length (cache s)) \<le> maxEntries cfg \<longrightarrow>
            int (length (cache (CacheManager_set s key d config t1 t2))) \<le> maxEntries cfg)
       \<and> (\<not> map_has (cache s) key \<and> maxEntries cfg \<le> int (length (cache s))
             \<and> cache s \<noteq> [] \<longrightarrow>
            map fst (cache (CacheManager_set s key d config t1 t2))
              = tl (map fst (cache s)) @ [key])
       \<and> (map_has (cache s) key \<longrightarrow>
            map fst (cache (CacheManager_set s key d config t1 t2)) = map fst (cache s))
       \<and> map_get (cache (CacheManager_set s key d config t1 t2)) key
            = Some \<lparr>data = d, timestamp = t1, expiresAt = t2 + duration cfg\<rparr>
       \<and> storage (CacheManager_set s key d config t1 t2)
            = Some (cache (CacheManager_set s key d config t1 t2))"
proof -
  let ?s' = "CacheManager_set s key d config t1 t2"
  have eff: "effective_config config = cfg"
    using assms(2-4) by (simp add: effective_config_valid)
  have c: "cache ?s' =
      map_set (if \<not> map_has (cache s) key \<and> maxEntries cfg \<le> int (length (cache s))
               then evict_oldest (cache s) else cache s)
        key \<lparr>data = d, timestamp = t1, expiresAt = t2 + duration cfg\<rparr>"
    using set_cache_enabled [OF assms(1), of key d config t1 t2] eff by simp
  have bound: "int (length (cache ?s')) \<le> maxEntries cfg"
    if le: "int (length (cache s)) \<le> maxEntries cfg"
  proof (cases "map_has (cache s) key")
    case True
    with c le show ?thesis by (simp add: map_set_length)
  next
    case False
    show ?thesis
    proof (cases "maxEntries cfg \<le> int (length (cache s))")
      case full: True
      with le assms(3) have ne: "cache s \<noteq> []" by auto
      have "evict_oldest (cache s) = tl (cache s)"
        using evict_oldest_distinct [OF assms(5) ne assms(6)] .
      moreover have "\<not> map_has (tl (cache s)) key"
        using False ne by (cases "cache s") (auto simp: map_has_def)
      ultimately have "length (cache ?s') = Suc (length (tl (cache s)))"
        using c False full by (simp add: map_set_length)
      with ne le show ?thesis by (cases "cache s") auto
    next
      case notfull: False
      with c False show ?thesis by (simp add: map_set_length)
    qed
  qed
  have evict: "map fst (cache ?s') = tl (map fst (cache s)) @ [key]"
    if "\<not> map_has (cache s) key" and "maxEntries cfg \<le> int (length (cache s))"
      and ne: "cache s \<noteq> []"
  proof -
    have e: "evict_oldest (cache s) = tl (cache s)"
      using evict_oldest_distinct [OF assms(5) ne assms(6)] .
    have "\<not> map_has (tl (cache s)) key"
      using that(1) ne by (cases "cache s") (auto simp: map_has_def)
    with c that(1,2) e show ?thesis
      by (simp add: map_set_keys map_tl)
  qed
  have overwrite: "map fst (cache ?s') = map fst (cache s)" if "map_has (cache s) key"
    using c that by (simp add: map_set_keys)
  have stored: "map_get (cache ?s') key
      = Some \<lparr>data = d, timestamp = t1, expiresAt = t2 + duration cfg\<rparr>"
    unfolding c by (rule map_get_set_same)
  have snap: "storage ?s' = Some (cache ?s')"
    using set_storage_enabled [OF assms(1)] .
  from bound evict overwrite stored snap show ?thesis by blast
qed

theorem set_capacity_and_eviction_witness:
  "cache (CacheManager_set two_entries ''product_c'' 3 cfg_two 9 9)
     = [(''product_b'', \<lparr>data = 2, timestamp = 5, expiresAt = 1005\<rparr>),
        (''product_c'', \<lparr>data = 3, timestamp = 9, expiresAt = 1009\<rparr>)]
   \<and> map fst (cache (CacheManager_set two_entries ''product_a'' 4 cfg_two 9 9))
     = [''product_a'', ''product_b'']"
proof -
  have h1: "\<not> isCacheDisabled two_entries"
    and h5: "distinct (map fst (cache two_entries))"
    and h6: "map_first_key (cache two_entries) \<noteq> Some []"
    by (simp_all add: two_entries_value map_first_key_def)
  have h2: "cfg_two = Some \<lparr>duration = 1000, maxEntries = 2\<rparr>"
    by (simp add: cfg_two_def)
  have h3: "maxEntries \<lparr>duration = 1000, maxEntries = 2\<rparr> \<noteq> 0"
    and h4: "duration \<lparr>duration = 1000, maxEntries = 2\<rparr> \<noteq> 0"
    by simp_all
  note c = set_capacity_and_eviction [OF h1 h2 h3 h4 h5 h6, of "''product_c''" 3 9 9]
  note a = set_capacity_and_eviction [OF h1 h2 h3 h4 h5 h6, of "''product_a''" 4 9 9]
  have keys_c: "map fst (cache (CacheManager_set two_entries ''product_c'' 3 cfg_two 9 9))
      = [''product_b'', ''product_c'']"
    using c by (simp add: two_entries_value map_has_def)
  have keys_a: "map fst (cache (CacheManager_set two_entries ''product_a'' 4 cfg_two 9 9))
      = [''product_a'', ''product_b'']"
    using a by (simp add: two_entries_value map_has_def)
  have "cache (CacheManager_set two_entries ''product_c'' 3 cfg_two 9 9)
     = [(''product_b'', \<lparr>data = 2, timestamp = 5, expiresAt = 1005\<rparr>),
        (''product_c'', \<lparr>data = 3, timestamp = 9, expiresAt = 1009\<rparr>)]"
    by (simp add: two_entries_value cfg_two_def CacheManager_set_def effective_config_def
        map_has_def map_set_def map_delete_def map_first_key_def evict_oldest_def
        saveToStorage_def Let_def)
  with keys_a show ?thesis by simp
qed

subsection \<open>Clearing (claim C5)\<close>

lemma clear_enabled:
  "\<not> isCacheDisabled s \<Longrightarrow>
     cache (CacheManager_clear s) = [] \<and> storage (CacheManager_clear s) = Some []"
  by (simp add: CacheManager_clear_def saveToStorage_def)

lemma clear_disabled:
  "isCacheDisabled s \<Longrightarrow>
     cache (CacheManager_clear s) = [] \<and> storage (CacheManager_clear s) = storage s"
  by (simp add: CacheManager_clear_def saveToStorage_def)

lemma clear_v100_always:
  "cache (CacheManager_clear_v100 s) = [] \<and> storage (CacheManager_clear_v100 s) = Some []"
  by (simp add: CacheManager_clear_v100_def)

text \<open>
  Claim C5 says that \<open>clear()\<close> persists an empty snapshot in every state, the disabled one
  included. In version 1.0.1 \<open>clear()\<close> persists through \<open>saveToStorage\<close>, which returns
  early while the cache is disabled: the map is emptied, the stored snapshot keeps its
  entry. Version 1.0.0 wrote the empty object itself and does what the claim says.
\<close>

theorem clear_disabled_keeps_snapshot:
  "cache (CacheManager_clear one_entry_disabled) = []
   \<and> storage (CacheManager_clear one_entry_disabled)
       = Some [(''product_1'', \<lparr>data = 7, timestamp = 0, expiresAt = 100\<rparr>)]
   \<and> storage (CacheManager_clear_v100 one_entry_disabled) = Some []"
  by (simp add: CacheManager_clear_def CacheManager_clear_v100_def saveToStorage_def
      one_entry_disabled_def one_entry_def)

subsection \<open>Reading (claim C6)\<close>

text \<open>Removing a key from an association list touches no other key.\<close>

lemma map_of_filter_key:
  "map_of (filter (\<lambda>kv. fst kv \<noteq> key) m) k = (if k = key then None else map_of m k)"
  by (induction m) auto

text \<open>
  Claim C6: \<open>get(key)\<close> returns the cached data of a present entry that has not expired and
  leaves the state (the order of the entries included) as it was; for a present entry
  whose \<open>expiresAt\<close> has passed it returns \<open>null\<close>, the map afterwards is the map before
  without the entries of this key, in the same order, so that the key is absent and
  every other key has the entry it had, and the stored snapshot equals the map
  afterwards; while the cache is disabled it returns \<open>null\<close> and leaves map and storage
  untouched.
\<close>

theorem get_hit_expired_disabled:
  "(\<not> isCacheDisabled s \<and> map_of (cache s) key = Some e \<and> now \<le> expiresAt e \<longrightarrow>
      CacheManager_get s key now = (Some (data e), s))
   \<and> (\<not> isCacheDisabled s \<and> map_of (cache s) key = Some e \<and> expiresAt e < now \<longrightarrow>
      CacheManager_get s key now
        = (None, s\<lparr>cache := filter (\<lambda>kv. fst kv \<noteq> key) (cache s),
                    storage := Some (filter (\<lambda>kv. fst kv \<noteq> key) (cache s))\<rparr>)
      \<and> map_of (cache (snd (CacheManager_get s key now))) key = None
      \<and> (\<forall>k. k \<noteq> key \<longrightarrow>
            map_of (cache (snd (CacheManager_get s key now))) k = map_of (cache s) k)
      \<and> storage (snd (CacheManager_get s key now))
          = Some (cache (snd (CacheManager_get s key now))))
   \<and> (isCacheDisabled s \<longrightarrow> CacheManager_get s key now = (None, s))"
  by (simp add: CacheManager_get_def saveToStorage_def map_get_def map_delete_def
      map_of_filter_key)

text \<open>
  A hit, an expiry in a map of two entries (the other entry stays, in the map and in
  the snapshot), an expiry of the only entry, and a disabled cache.
\<close>

theorem get_hit_expired_disabled_witness:
  "CacheManager_get one_entry ''product_1'' 100 = (Some 7, one_entry)
   \<and> CacheManager_get two_entries ''product_a'' 1001
       = (None,
          \<lparr>cache = [(''product_b'', \<lparr>data = 2, timestamp = 5, expiresAt = 1005\<rparr>)],
           storage = Some [(''product_b'', \<lparr>data = 2, timestamp = 5, expiresAt = 1005\<rparr>)],
           isCacheDisabled = False\<rparr>)
   \<and> map_of (cache (snd (CacheManager_get two_entries ''product_a'' 1001))) ''product_b''
       = Some \<lparr>data = 2, timestamp = 5, expiresAt = 1005\<rparr>
   \<and> CacheManager_get one_entry ''product_1'' 101
       = (None, \<lparr>cache = [], storage = Some [], isCacheDisabled = False\<rparr>)
   \<and> CacheManager_get one_entry_disabled ''product_1'' 100 = (None, one_entry_disabled)"
proof -
  let ?e = "\<lparr>data = 7::nat, timestamp = 0, expiresAt = 100\<rparr>"
  let ?a = "\<lparr>data = 1::nat, timestamp = 0, expiresAt = 1000\<rparr>"
  have enabled: "\<not> isCacheDisabled one_entry"
    and present: "map_of (cache one_entry) ''product_1'' = Some ?e"
    and disabled: "isCacheDisabled one_entry_disabled"
    by (simp_all add: one_entry_def one_entry_disabled_def)
  have enabled2: "\<not> isCacheDisabled two_entries"
    and present2: "map_of (cache two_entries) ''product_a'' = Some ?a"
    by (simp_all add: two_entries_value)
  have hit: "CacheManager_get one_entry ''product_1'' 100 = (Some 7, one_entry)"
    using get_hit_expired_disabled [of one_entry "''product_1''" ?e 100] enabled present
    by simp
  have expired2: "CacheManager_get two_entries ''product_a'' 1001
       = (None,
          \<lparr>cache = [(''product_b'', \<lparr>data = 2, timestamp = 5, expiresAt = 1005\<rparr>)],
           storage = Some [(''product_b'', \<lparr>data = 2, timestamp = 5, expiresAt = 1005\<rparr>)],
           isCacheDisabled = False\<rparr>)"
    using get_hit_expired_disabled [of two_entries "''product_a''" ?a 1001] enabled2 present2
    by (simp add: two_entries_value)
  have other: "map_of (cache (snd (CacheManager_get two_entries ''product_a'' 1001))) ''product_b''
       = Some \<lparr>data = 2, timestamp = 5, expiresAt = 1005\<rparr>"
    using get_hit_expired_disabled [of two_entries "''product_a''" ?a 1001] enabled2 present2
    by (simp add: two_entries_value)
  have expired: "CacheManager_get one_entry ''product_1'' 101
       = (None, \<lparr>cache = [], storage = Some [], isCacheDisabled = False\<rparr>)"
    using get_hit_expired_disabled [of one_entry "''product_1''" ?e 101] enabled present
    by (simp add: one_entry_def)
  have off: "CacheManager_get one_entry_disabled ''product_1'' 100 = (None, one_entry_disabled)"
    using get_hit_expired_disabled [of one_entry_disabled "''product_1''" ?e 100] disabled
    by simp
  from hit expired2 other expired off show ?thesis by simp
qed

section \<open>Properties of the rate limiter\<close>

lemma retryable_challenge: "retryable (JsError (Some ''FAIL_SYS_USER_VALIDATE::challenge''))"
  by (simp add: retryable_def)

text \<open>
  While every doubled delay stays below the maximum, \<open>n\<close> retryable failures followed by
  a success sleep \<open>b, 2b, 4b, ...\<close> and leave the backoff reset to 1000.
\<close>

lemma backoff_waits_doubling:
  assumes "retryable e" and "0 < b" and "\<forall>i<n. b * 2 ^ i < M"
  shows "executeWithBackoff \<lparr>backoffTime = b, maxBackoffTime = M\<rparr>
           (replicate n (Inl e) @ Inr v # rest)
         = (map (\<lambda>i. b * 2 ^ i) [0..<n], Some (Inr v),
            \<lparr>backoffTime = 1000, maxBackoffTime = M\<rparr>)"
  using assms(2,3)
proof (induction n arbitrary: b)
  case 0
  show ?case by simp
next
  case (Suc n)
  from Suc.prems(2) have bM: "b < M" by force
  show ?case
  proof (cases n)
    case 0
    with bM assms(1) show ?thesis by simp
  next
    case (Suc m)
    from Suc.prems(2) \<open>n = Suc m\<close> have "b * 2 ^ 1 < M"
      by (metis One_nat_def Suc_less_eq zero_less_Suc)
    then have b2: "b * 2 < M" by simp
    have steps: "\<forall>i<n. (b * 2) * 2 ^ i < M"
    proof (intro allI impI)
      fix i assume "i < n"
      then have "b * 2 ^ Suc i < M" using Suc.prems(2) by (metis Suc_less_eq)
      then show "(b * 2) * 2 ^ i < M" by (simp add: mult.assoc)
    qed
    have "0 < b * 2" using Suc.prems(1) by simp
    from Suc.IH [OF this steps]
    have ih: "executeWithBackoff \<lparr>backoffTime = b * 2, maxBackoffTime = M\<rparr>
           (replicate n (Inl e) @ Inr v # rest)
         = (map (\<lambda>i. b * 2 * 2 ^ i) [0..<n], Some (Inr v),
            \<lparr>backoffTime = 1000, maxBackoffTime = M\<rparr>)" .
    have m: "map (\<lambda>i. b * 2 ^ i) [0..<Suc n] = b # map (\<lambda>i. b * 2 * 2 ^ i) [0..<n]"
      by (simp add: map_upt_Suc mult.assoc del: upt_Suc)
    show ?thesis
      using assms(1) bM b2 ih
      by (simp add: m min_def del: upt_Suc)
  qed
qed

text \<open>
  Claim C3 closes with an example: initial backoff 1000, maximum 8000, four retryable
  failures and then a success are said to wait 1000, 2000, 4000 and 8000. By the rule the
  claim itself states, the fourth failure finds the backoff at the maximum and is
  propagated: three waits, and the call fails.
\<close>

theorem backoff_example_counterexample:
  "fst (executeWithBackoff limiter_8000 [challenge, challenge, challenge, challenge, Inr 5])
     \<noteq> [1000, 2000, 4000, 8000]
   \<and> fst (snd (executeWithBackoff limiter_8000
                  [challenge, challenge, challenge, challenge, Inr 5])) = Some challenge"
  by (simp add: limiter_8000_def challenge_def retryable_def)

text \<open>
  Claim C3, amended: a successful attempt ends the call with its result and resets the
  backoff to 1000; a retryable failure (rate limit or validation challenge) is
  propagated, the limiter unchanged, if the backoff has reached the maximum; otherwise
  the call sleeps for the current backoff, doubles it (capped at the maximum) and goes
  on with the next attempt. With backoff 1000 and maximum 8000, four retryable failures
  wait 1000, 2000, 4000 and the fourth failure is propagated; three failures and a
  success wait 1000, 2000, 4000 and succeed, and a failure after that waits 1000 again.
\<close>

theorem backoff_policy:
  "executeWithBackoff rl (Inr v # rest) = ([], Some (Inr v), rl\<lparr>backoffTime := 1000\<rparr>)
   \<and> (retryable e \<and> maxBackoffTime rl \<le> backoffTime rl \<longrightarrow>
        executeWithBackoff rl (Inl e # rest) = ([], Some (Inl e), rl))
   \<and> (retryable e \<and> backoffTime rl < maxBackoffTime rl \<longrightarrow>
        executeWithBackoff rl (Inl e # rest)
          = (backoffTime rl
               # fst (executeWithBackoff
                        (rl\<lparr>backoffTime := min (2 * backoffTime rl) (maxBackoffTime rl)\<rparr>) rest),
             snd (executeWithBackoff
                        (rl\<lparr>backoffTime := min (2 * backoffTime rl) (maxBackoffTime rl)\<rparr>) rest)))
   \<and> executeWithBackoff limiter_8000 [challenge, challenge, challenge, challenge, Inr 5]
        = ([1000, 2000, 4000], Some challenge, \<lparr>backoffTime = 8000, maxBackoffTime = 8000\<rparr>)
   \<and> executeWithBackoff limiter_8000 [challenge, challenge, challenge, Inr 5]
        = ([1000, 2000, 4000], Some (Inr 5), limiter_8000)
   \<and> executeWithBackoff limiter_8000 [challenge, Inr 6] = ([1000], Some (Inr 6), limiter_8000)"
  by (simp add: limiter_8000_def challenge_def retryable_def mult.commute split: prod.splits)

theorem backoff_policy_witness:
  "executeWithBackoff \<lparr>backoffTime = 8000, maxBackoffTime = 8000\<rparr> [challenge, Inr 5]
     = ([], Some challenge, \<lparr>backoffTime = 8000, maxBackoffTime = 8000\<rparr>)
   \<and> executeWithBackoff \<lparr>backoffTime = 2000, maxBackoffTime = 8000\<rparr> [challenge, Inr 5]
     = ([2000], Some (Inr 5), limiter_8000)"
  using backoff_policy [where rl = "\<lparr>backoffTime = 8000, maxBackoffTime = 8000\<rparr>"
      and e = "JsError (Some ''FAIL_SYS_USER_VALIDATE::challenge'')"
      and rest = "[Inr (5::nat)]" and v = "5::nat"]
    backoff_policy [where rl = "\<lparr>backoffTime = 2000, maxBackoffTime = 8000\<rparr>"
      and e = "JsError (Some ''FAIL_SYS_USER_VALIDATE::challenge'')"
      and rest = "[Inr (5::nat)]" and v = "5::nat"]
    retryable_challenge
  by (simp add: challenge_def limiter_8000_def)

section \<open>Properties of the price context\<close>

subsection \<open>Variant selection (claim C1)\<close>

text \<open>The head of a stable sort is the first element whose key is least.\<close>

lemma hd_insort_key:
  "hd (insort_key f x ys) = (if ys = [] \<or> f x \<le> f (hd ys) then x else hd ys)"
  by (cases ys) auto

lemma sort_key_nonempty: "xs \<noteq> [] \<Longrightarrow> sort_key f xs \<noteq> []"
  by (cases xs) auto

lemma hd_sort_key_first_min:
  assumes "xs \<noteq> []"
  shows "\<exists>i<length xs. hd (sort_key f xs) = xs ! i
           \<and> (\<forall>j<length xs. f (xs ! i) \<le> f (xs ! j))
           \<and> (\<forall>j<i. f (xs ! i) < f (xs ! j))"
  using assms
proof (induction xs)
  case Nil
  then show ?case by simp
next
  case (Cons x xs)
  show ?case
  proof (cases "xs = []")
    case True
    then show ?thesis by simp
  next
    case False
    from Cons.IH [OF False] obtain i where i: "i < length xs"
      and hd: "hd (sort_key f xs) = xs ! i"
      and least: "\<forall>j<length xs. f (xs ! i) \<le> f (xs ! j)"
      and first: "\<forall>j<i. f (xs ! i) < f (xs ! j)"
      by blast
    have ne: "sort_key f xs \<noteq> []" using False by (rule sort_key_nonempty)
    show ?thesis
    proof (cases "f x \<le> f (xs ! i)")
      case True
      then have "hd (sort_key f (x # xs)) = (x # xs) ! 0"
        using hd ne by (simp add: hd_insort_key)
      moreover have "\<forall>j<length (x # xs). f ((x # xs) ! 0) \<le> f ((x # xs) ! j)"
      proof (intro allI impI)
        fix j assume "j < length (x # xs)"
        then show "f ((x # xs) ! 0) \<le> f ((x # xs) ! j)"
          using True least by (cases j) (auto intro: order_trans)
      qed
      ultimately show ?thesis by (intro exI [of _ 0]) simp
    next
      case False
      then have "hd (sort_key f (x # xs)) = (x # xs) ! Suc i"
        using hd ne by (simp add: hd_insort_key)
      moreover have "\<forall>j<length (x # xs). f ((x # xs) ! Suc i) \<le> f ((x # xs) ! j)"
      proof (intro allI impI)
        fix j assume "j < length (x # xs)"
        then show "f ((x # xs) ! Suc i) \<le> f ((x # xs) ! j)"
          using False least by (cases j) auto
      qed
      moreover have "\<forall>j<Suc i. f ((x # xs) ! Suc i) < f ((x # xs) ! j)"
      proof (intro allI impI)
        fix j assume "j < Suc i"
        then show "f ((x # xs) ! Suc i) < f ((x # xs) ! j)"
          using False first by (cases j) auto
      qed
      ultimately show ?thesis using i by (intro exI [of _ "Suc i"]) simp
    qed
  qed
qed

text \<open>
  The rounding: \<open>ilog2\<close> is the binary exponent, and \<open>fl x\<close> is a multiple of the
  spacing \<open>2 ^ quantum x\<close> at most half a spacing away from \<open>x\<close>.
\<close>

lemma bit_length_rec: "bit_length n = (if n = 0 then 0 else Suc (bit_length (n div 2)))"
  by (cases n) simp_all

lemma bit_length_pos: "0 < n \<Longrightarrow> 0 < bit_length n"
  by (cases n) simp_all

lemma bit_length_bounds:
  "0 < n \<Longrightarrow> 2 ^ (bit_length n - 1) \<le> n \<and> n < 2 ^ bit_length n"
proof (induction n rule: less_induct)
  case (less n)
  show ?case
  proof (cases "n = 1")
    case True
    have "bit_length 1 = 1"
      by (simp add: bit_length_rec)
    with True show ?thesis by simp
  next
    case False
    with less.prems have half: "0 < n div 2" and ne: "n \<noteq> 0" by simp_all
    let ?b = "bit_length (n div 2)"
    have b: "0 < ?b" using half by (rule bit_length_pos)
    have len: "bit_length n = Suc ?b"
      using ne by (subst bit_length_rec) simp
    have smaller: "n div 2 < n" using ne by simp
    from less.IH [OF smaller half] have lo: "2 ^ (?b - 1) \<le> n div 2" and hi: "n div 2 < 2 ^ ?b"
      by simp_all
    have "(2 :: nat) ^ ?b = 2 * 2 ^ (?b - 1)"
      using b by (cases ?b) simp_all
    then have "2 ^ ?b \<le> 2 * (n div 2)" using lo by simp
    then have low: "2 ^ ?b \<le> n" by linarith
    have "n div 2 + 1 \<le> 2 ^ ?b" using hi by simp
    then have "2 * (n div 2) + 2 \<le> 2 * 2 ^ ?b" by simp
    then have high: "n < 2 ^ Suc ?b" by simp
    from low high show ?thesis by (simp add: len)
  qed
qed

lemma ilog2_bounds:
  assumes "0 < x"
  shows "scale2 (ilog2 x) 1 \<le> x \<and> x < scale2 (ilog2 x + 1) 1"
proof (cases "1 \<le> x")
  case True
  let ?n = "nat \<lfloor>x\<rfloor>"
  let ?b = "bit_length ?n"
  have n: "0 < ?n" using True by simp
  have b: "0 < ?b" using n by (rule bit_length_pos)
  from bit_length_bounds [OF n] have lo: "2 ^ (?b - 1) \<le> ?n" and hi: "?n < 2 ^ ?b"
    by simp_all
  have fl: "real ?n \<le> x" and ce: "x < real ?n + 1"
    using True by (simp_all add: of_nat_nat)
  have "(2 :: real) ^ (?b - 1) = real (2 ^ (?b - 1))" by simp
  also have "\<dots> \<le> real ?n" using lo by (rule iffD2 [OF of_nat_le_iff])
  also have "\<dots> \<le> x" by (rule fl)
  finally have low: "2 ^ (?b - 1) \<le> x" .
  have "Suc ?n \<le> 2 ^ ?b" using hi by (rule Suc_leI)
  then have "real (Suc ?n) \<le> real (2 ^ ?b)" by (rule iffD2 [OF of_nat_le_iff])
  then have top: "real ?n + 1 \<le> 2 ^ ?b" by simp
  have high: "x < 2 ^ ?b" using ce top by (rule less_le_trans)
  have e: "ilog2 x = int ?b - 1" using True by (simp add: ilog2_def)
  have e0: "0 \<le> int ?b - 1" using b by simp
  have n1: "nat (int ?b - 1) = ?b - 1" by simp
  have n2: "nat (int ?b - 1 + 1) = ?b" by simp
  show ?thesis
    unfolding e scale2_def using e0 low high by (simp add: n1 del: of_nat_diff)
next
  case False
  let ?y = "1 / x"
  let ?n = "nat (\<lceil>?y\<rceil> - 1)"
  let ?b = "bit_length ?n"
  have y: "1 < ?y" using False assms by simp
  then have c: "2 \<le> \<lceil>?y\<rceil>" by linarith
  then have n: "0 < ?n" by linarith
  have b: "0 < ?b" using n by (rule bit_length_pos)
  from bit_length_bounds [OF n] have lo: "2 ^ (?b - 1) \<le> ?n" and hi: "?n < 2 ^ ?b"
    by simp_all
  have "0 \<le> \<lceil>?y\<rceil> - 1" using c by linarith
  then have "real ?n = of_int (\<lceil>?y\<rceil> - 1)" by (rule of_nat_nat)
  then have rn: "real ?n = of_int \<lceil>?y\<rceil> - 1" by simp
  have up: "?y \<le> real ?n + 1" unfolding rn by simp
  have down: "real ?n < ?y" unfolding rn by linarith
  have "Suc ?n \<le> 2 ^ ?b" using hi by (rule Suc_leI)
  then have "real (Suc ?n) \<le> real (2 ^ ?b)" by (rule iffD2 [OF of_nat_le_iff])
  then have top: "real ?n + 1 \<le> 2 ^ ?b" by simp
  have "?y \<le> 2 ^ ?b" using up top by (rule order_trans)
  then have low: "1 / 2 ^ ?b \<le> x"
    using assms by (simp add: field_simps)
  have "(2 :: real) ^ (?b - 1) = real (2 ^ (?b - 1))" by simp
  also have "\<dots> \<le> real ?n" using lo by (rule iffD2 [OF of_nat_le_iff])
  also have "\<dots> < ?y" by (rule down)
  finally have "2 ^ (?b - 1) < ?y" .
  then have high: "x < 1 / 2 ^ (?b - 1)"
    using assms by (simp add: field_simps)
  have e: "ilog2 x = - int ?b" using False by (simp add: ilog2_def)
  show ?thesis
  proof (cases "?b = 1")
    case True
    then show ?thesis unfolding e scale2_def using low high by simp
  next
    case False
    then have "1 < ?b" using b by simp
    then have "nat (- (- int ?b + 1)) = ?b - 1" by simp
    then show ?thesis unfolding e scale2_def using low high \<open>1 < ?b\<close> by simp
  qed
qed

lemma round_half_even_near: "\<bar>of_int (round_half_even m) - m\<bar> \<le> 1 / 2"
proof -
  have "of_int \<lfloor>m\<rfloor> \<le> m" "m < of_int \<lfloor>m\<rfloor> + 1"
    by linarith+
  then show ?thesis
    by (auto simp add: round_half_even_def Let_def)
qed

lemma scale2_inverse: "scale2 k (scale2 (- k) x) = x"
  by (simp add: scale2_def)

lemma scale2_diff: "scale2 k a - scale2 k b = scale2 k (a - b)"
  by (simp add: scale2_def algebra_simps diff_divide_distrib)

lemma scale2_abs: "\<bar>scale2 k a\<bar> = scale2 k \<bar>a\<bar>"
  by (simp add: scale2_def abs_mult)

lemma scale2_mono: "a \<le> b \<Longrightarrow> scale2 k a \<le> scale2 k b"
  by (simp add: scale2_def divide_right_mono)

lemma fl_nearest: "\<bar>fl x - x\<bar> \<le> scale2 (quantum x) (1 / 2)"
proof (cases "x = 0")
  case True
  then show ?thesis by (simp add: fl_def scale2_def)
next
  case False
  let ?q = "quantum x"
  let ?m = "scale2 (- ?q) x"
  have "fl x - x = scale2 ?q (of_int (round_half_even ?m)) - scale2 ?q ?m"
    using False by (simp only: fl_def scale2_inverse if_False)
  also have "\<dots> = scale2 ?q (of_int (round_half_even ?m) - ?m)"
    by (rule scale2_diff)
  finally have "\<bar>fl x - x\<bar> = scale2 ?q \<bar>of_int (round_half_even ?m) - ?m\<bar>"
    by (simp only: scale2_abs)
  also have "\<dots> \<le> scale2 ?q (1 / 2)"
    using round_half_even_near by (rule scale2_mono)
  finally show ?thesis .
qed

lemmas fl_eval = fl_def quantum_def ilog2_def round_half_even_def bit_length_rec
  scale2_def overflows_def Let_def

lemma fl_examples:
  "fl 6 = 6"
  "fl (1 / 7) = 2573485501354569 / 2 ^ 54"
  "fl 1.3 = 5854679515581645 / 2 ^ 52"
  "fl 0.7 = 3152519739159347 / 2 ^ 52"
  "fl (2 ^ 53 + 1) = 2 ^ 53"
  "fl (2 ^ 53 + 3) = 2 ^ 53 + 4"
  by (simp_all add: fl_eval)

lemma calculateVariantScore_formula:
  "calculateVariantScore v c =
     fl (fl ((if overflows (discountedValue (price v) - median c) then 0
              else fl (1 / fl (\<bar>fl (discountedValue (price v) - median c)\<bar> + 1)))
             * (if lowerBound c \<le> discountedValue (price v)
                   \<and> discountedValue (price v) \<le> upperBound c then 1.5 else 0.5))
         * (if isMainProduct v then fl 1.3 else fl 0.7))"
  by (simp add: calculateVariantScore_def Let_def)

text \<open>
  The scores of the examples, as the script computes them: \<open>0.008749999999999999\<close>,
  \<open>0.9750000000000001\<close>, \<open>0.15\<close> and \<open>0.15000000000000002\<close>.
\<close>

lemma score_accessory:
  "calculateVariantScore (plain_variant ''A'' 5 False) context_44 = 5044031582654955 / 2 ^ 59"
  by (simp add: calculateVariantScore_def plain_variant_def context_44_def) (simp add: fl_eval)

lemma score_item:
  "calculateVariantScore (plain_variant i 45 True) context_44 = 2195504818343117 / 2 ^ 51"
  by (simp add: calculateVariantScore_def plain_variant_def context_44_def) (simp add: fl_eval)

lemma score_near_accessory:
  "calculateVariantScore (plain_variant ''X'' 106 False) context_100 = 5404319552844595 / 2 ^ 55"
  by (simp add: calculateVariantScore_def plain_variant_def context_100_def) (simp add: fl_eval)

lemma score_far_item:
  "calculateVariantScore (plain_variant ''Y'' 112 True) context_100 = 1351079888211149 / 2 ^ 53"
  by (simp add: calculateVariantScore_def plain_variant_def context_100_def) (simp add: fl_eval)

text \<open>
  Claim C1 gives the score as a product of three factors and has the first variant with
  the greatest score returned. In exact arithmetic an accessory at 106 and an item at
  112, both within the band around the median 100, have the same score
  \<open>1/7 * 1.5 * 0.7 = 1/13 * 1.5 * 1.3 = 0.15\<close>, so the accessory, coming first, would be
  returned. The script computes in double precision, where the item scores
  \<open>0.15000000000000002\<close>, and returns the item.
\<close>

theorem exact_score_tie_counterexample:
  "score_as_specified (plain_variant ''X'' 106 False) context_100
     = score_as_specified (plain_variant ''Y'' 112 True) context_100
   \<and> calculateVariantScore (plain_variant ''X'' 106 False) context_100
     < calculateVariantScore (plain_variant ''Y'' 112 True) context_100
   \<and> findBestMatchingVariant [plain_variant ''X'' 106 False, plain_variant ''Y'' 112 True]
       (Some context_100)
     = Some (plain_variant ''Y'' 112 True, Some (1351079888211149 / 2 ^ 53))"
proof -
  have "score_as_specified (plain_variant ''X'' 106 False) context_100
      = score_as_specified (plain_variant ''Y'' 112 True) context_100"
    by (simp add: score_as_specified_def plain_variant_def context_100_def)
  moreover have "calculateVariantScore (plain_variant ''X'' 106 False) context_100
      < calculateVariantScore (plain_variant ''Y'' 112 True) context_100"
    by (simp add: score_near_accessory score_far_item)
  moreover have "findBestMatchingVariant [plain_variant ''X'' 106 False, plain_variant ''Y'' 112 True]
       (Some context_100)
     = Some (plain_variant ''Y'' 112 True, Some (1351079888211149 / 2 ^ 53))"
    by (simp add: findBestMatchingVariant_def sort_by_score_desc_def first_element_def
        score_near_accessory score_far_item)
  ultimately show ?thesis by blast
qed

text \<open>
  Claim C1, amended: the score of a variant is the claimed product evaluated in double
  precision, every operation rounded to the nearest double and \<open>1.3\<close>, \<open>0.7\<close> standing
  for their nearest doubles. For a non-empty list and a context, the result is a variant
  of the list, carrying its score; no variant has a higher computed score, and every
  variant before it has a strictly lower one (the first maximum). Without a context the
  result is the first variant as it is; on an empty list it is \<open>undefined\<close>, the value of
  \<open>variants[0]\<close>.
\<close>

theorem best_variant_first_maximum:
  "(vs \<noteq> [] \<longrightarrow>
      (\<exists>i<length vs.
         findBestMatchingVariant vs (Some c) = Some (vs ! i, Some (calculateVariantScore (vs ! i) c))
         \<and> (\<forall>j<length vs. calculateVariantScore (vs ! j) c \<le> calculateVariantScore (vs ! i) c)
         \<and> (\<forall>j<i. calculateVariantScore (vs ! j) c < calculateVariantScore (vs ! i) c)))
   \<and> calculateVariantScore v c =
       fl (fl ((if overflows (discountedValue (price v) - median c) then 0
                else fl (1 / fl (\<bar>fl (discountedValue (price v) - median c)\<bar> + 1)))
               * (if lowerBound c \<le> discountedValue (price v)
                     \<and> discountedValue (price v) \<le> upperBound c then 1.5 else 0.5))
           * (if isMainProduct v then fl 1.3 else fl 0.7))
   \<and> findBestMatchingVariant (v # rest) None = Some (v, None)
   \<and> findBestMatchingVariant [] context = None"
proof -
  have best: "\<exists>i<length vs.
         findBestMatchingVariant vs (Some c) = Some (vs ! i, Some (calculateVariantScore (vs ! i) c))
         \<and> (\<forall>j<length vs. calculateVariantScore (vs ! j) c \<le> calculateVariantScore (vs ! i) c)
         \<and> (\<forall>j<i. calculateVariantScore (vs ! j) c < calculateVariantScore (vs ! i) c)"
    if ne: "vs \<noteq> []"
  proof -
    let ?scored = "map (\<lambda>v. (v, calculateVariantScore v c)) vs"
    let ?key = "\<lambda>x :: variant \<times> real. - snd x"
    have sne: "?scored \<noteq> []" using ne by simp
    from hd_sort_key_first_min [OF sne, of ?key]
    obtain i where i: "i < length vs"
      and hd: "hd (sort_key ?key ?scored) = ?scored ! i"
      and least: "\<forall>j<length ?scored. ?key (?scored ! i) \<le> ?key (?scored ! j)"
      and first: "\<forall>j<i. ?key (?scored ! i) < ?key (?scored ! j)"
      by auto
    have "sort_key ?key ?scored \<noteq> []" using sne by (rule sort_key_nonempty)
    then have "first_element (sort_key ?key ?scored) = Some (?scored ! i)"
      using hd by (cases "sort_key ?key ?scored") (auto simp: first_element_def)
    then have "findBestMatchingVariant vs (Some c)
        = Some (vs ! i, Some (calculateVariantScore (vs ! i) c))"
      using ne i by (simp add: findBestMatchingVariant_def sort_by_score_desc_def)
    moreover have "\<forall>j<length vs. calculateVariantScore (vs ! j) c \<le> calculateVariantScore (vs ! i) c"
      using least i by simp
    moreover have "\<forall>j<i. calculateVariantScore (vs ! j) c < calculateVariantScore (vs ! i) c"
      using first i by simp
    ultimately show ?thesis using i by blast
  qed
  have none: "findBestMatchingVariant (v # rest) None = Some (v, None)"
    by (simp add: findBestMatchingVariant_def first_element_def)
  have empty: "findBestMatchingVariant [] context = None"
    by (simp add: findBestMatchingVariant_def first_element_def split: option.splits)
  from best calculateVariantScore_formula none empty show ?thesis by blast
qed

text \<open>
  The example of the specification: the item at 45 is chosen over the accessory at 5;
  of two variants with equal scores the first is chosen.
\<close>

theorem best_variant_first_maximum_witness:
  "findBestMatchingVariant [plain_variant ''A'' 5 False, plain_variant ''B'' 45 True]
       (Some context_44)
     = Some (plain_variant ''B'' 45 True, Some (2195504818343117 / 2 ^ 51))
   \<and> findBestMatchingVariant [plain_variant ''B'' 45 True, plain_variant ''C'' 45 True]
       (Some context_44)
     = Some (plain_variant ''B'' 45 True, Some (2195504818343117 / 2 ^ 51))"
proof -
  let ?A = "plain_variant ''A'' 5 False"
  let ?B = "plain_variant ''B'' 45 True"
  let ?C = "plain_variant ''C'' 45 True"
  have neAB: "[?A, ?B] \<noteq> []" and neBC: "[?B, ?C] \<noteq> []"
    by simp_all
  from best_variant_first_maximum [of "[?A, ?B]" context_44, THEN conjunct1, rule_format, OF neAB]
  obtain i where i: "i < length [?A, ?B]"
    and r: "findBestMatchingVariant [?A, ?B] (Some context_44)
              = Some ([?A, ?B] ! i, Some (calculateVariantScore ([?A, ?B] ! i) context_44))"
    and m: "\<forall>j<length [?A, ?B]. calculateVariantScore ([?A, ?B] ! j) context_44
              \<le> calculateVariantScore ([?A, ?B] ! i) context_44"
    by blast
  from i have "i = 0 \<or> i = 1" by auto
  moreover have "i \<noteq> 0"
  proof
    assume "i = 0"
    with m [rule_format, of 1] have "calculateVariantScore ([?A, ?B] ! 1) context_44
        \<le> calculateVariantScore ([?A, ?B] ! 0) context_44" by simp
    then show False by (simp add: score_accessory score_item)
  qed
  ultimately have "i = 1" by simp
  with r have first: "findBestMatchingVariant [?A, ?B] (Some context_44)
      = Some (?B, Some (2195504818343117 / 2 ^ 51))"
    by (simp add: score_item)
  from best_variant_first_maximum [of "[?B, ?C]" context_44, THEN conjunct1, rule_format, OF neBC]
  obtain k where k: "k < length [?B, ?C]"
    and r2: "findBestMatchingVariant [?B, ?C] (Some context_44)
              = Some ([?B, ?C] ! k, Some (calculateVariantScore ([?B, ?C] ! k) context_44))"
    and s2: "\<forall>j<k. calculateVariantScore ([?B, ?C] ! j) context_44
              < calculateVariantScore ([?B, ?C] ! k) context_44"
    by blast
  from k have "k = 0 \<or> k = 1" by auto
  moreover have "k \<noteq> 1"
  proof
    assume "k = 1"
    with s2 [rule_format, of 0] have "calculateVariantScore ([?B, ?C] ! 0) context_44
        < calculateVariantScore ([?B, ?C] ! 1) context_44" by simp
    then show False by (simp add: score_item)
  qed
  ultimately have "k = 0" by simp
  with r2 have "findBestMatchingVariant [?B, ?C] (Some context_44)
      = Some (?B, Some (2195504818343117 / 2 ^ 51))"
    by (simp add: score_item)
  with first show ?thesis by simp
qed

subsection \<open>Page context (claim C7)\<close>

lemma extracted_four: "extracted_prices four_cards = [30, 10, 40, 20]"
  by (simp add: extracted_prices_def four_cards_def extractPriceValue_def price_char_def
      is_digit_def parseFloat_digits_def digits_value_def digit_value_def)

lemma extract_thousands: "extractPriceValue ''US $1,299.50 sold'' = Some 1299.5"
  by (simp add: extractPriceValue_def price_char_def is_digit_def parseFloat_digits_def
      digits_value_def digit_value_def)

lemma median_examples:
  "calculateMedian [10, 20, 30] = 20" "calculateMedian [10, 20, 30, 40] = 25"
  by (simp_all add: calculateMedian_def)

lemma page_context_none_iff:
  "calculatePageContext cards = None \<longleftrightarrow> extracted_prices cards = []"
  by (simp add: calculatePageContext_def Let_def)

lemma page_context_some:
  assumes "extracted_prices cards \<noteq> []"
  shows "calculatePageContext cards =
           Some \<lparr>median = calculateMedian (sort (extracted_prices cards)),
                 lowerBound = calculateMedian (sort (extracted_prices cards))
                              - calculateMedian (sort (extracted_prices cards)) * 0.3,
                 upperBound = calculateMedian (sort (extracted_prices cards))
                              + calculateMedian (sort (extracted_prices cards)) * 0.3,
                 distribution =
                   \<lparr>dist_min = Min (set (extracted_prices cards)),
                    dist_max = Max (set (extracted_prices cards)),
                    clusters = findPriceClusters (sort (extracted_prices cards))\<rparr>\<rparr>"
  using assms by (simp add: calculatePageContext_def calculateDistribution_def Let_def)

lemma variance_single: "calculateVariance [x] = 0"
  by (simp add: calculateVariance_def)

lemma clusters_four:
  "findPriceClusters [10, 20, 30, 40] =
     [\<lparr>centerPrice = 13, count = 1, variance = 0\<rparr>,
      \<lparr>centerPrice = 19, count = 1, variance = 0\<rparr>,
      \<lparr>centerPrice = 31, count = 1, variance = 0\<rparr>]"
  by (simp add: findPriceClusters_def cluster_prices_def upt_rec variance_single)

lemma histogram_single_price: "findPriceClusters [p] = []"
  by (simp add: findPriceClusters_def cluster_prices_def)

text \<open>
  Claim C7 holds for the median, the band and the extremes (lemmas \<open>median_examples\<close>,
  \<open>page_context_none_iff\<close>, \<open>page_context_some\<close>), but not for the histogram: on a page
  showing the prices 30, 10, 40 and 20 the context has median 25 and band 17.5 to 32.5,
  and its three clusters count one price each; the buckets hold 10, 20 and 30, and the
  maximum 40, one of the four extracted prices, is counted in none.
\<close>

theorem page_context_histogram_misses_maximum:
  "calculatePageContext four_cards =
     Some \<lparr>median = 25, lowerBound = 17.5, upperBound = 32.5,
           distribution = \<lparr>dist_min = 10, dist_max = 40,
             clusters = [\<lparr>centerPrice = 13, count = 1, variance = 0\<rparr>,
                         \<lparr>centerPrice = 19, count = 1, variance = 0\<rparr>,
                         \<lparr>centerPrice = 31, count = 1, variance = 0\<rparr>]\<rparr>\<rparr>
   \<and> sort (extracted_prices four_cards) = [10, 20, 30, 40]
   \<and> concat (map (cluster_prices [10, 20, 30, 40]) [0..<5]) = [10, 20, 30]"
  by (simp add: calculatePageContext_def extracted_four calculateMedian_def
      calculateDistribution_def clusters_four cluster_prices_def upt_rec)

section \<open>Properties of the price range (claim C10)\<close>



section \<open>Properties of the variant parsers (claim C8)\<close>

lemma char_of_eq_iff: "(char_of (n::nat) = c) = (n mod 256 = of_char c)"
  by (metis of_char_of char_of_char)

lemma lower_phone_case: "toLowerCase ''Phone Case'' = ''phone case''"
  by (simp add: toLowerCase_def char_of_eq_iff)

text \<open>
  In the primary tier the flag is computed from the whole lower-cased \<open>skuAttr\<close>, not from
  the decoded name; in the fallback tier it is the constant \<open>true\<close>.
\<close>

lemma primary_tier_flag:
  "isMainProduct (api_sku_variant priceMap base sku)
     = (\<not> isAccessory (toLowerCase (case skuAttr sku of None \<Rightarrow> [] | Some a \<Rightarrow> a)))"
  by (simp add: api_sku_variant_def isMainProductBySku_def str_or_def Let_def toLowerCase_def
      split: option.splits)

lemma fallback_tier_flag: "isMainProduct (html_sku_variant formatPrice sku)"
  by (simp add: html_sku_variant_def Let_def)

lemma primary_tier_reads_whole_attribute:
  "name (api_sku_variant priceMap base with_box_sku) = ''Black;200007763:201336100''
   \<and> \<not> isAccessory (toLowerCase (name (api_sku_variant priceMap base with_box_sku)))
   \<and> \<not> isMainProduct (api_sku_variant priceMap base with_box_sku)"
  by (simp add: api_sku_variant_def with_box_sku_def getSkuName_def isMainProductBySku_def
      str_or_def second_or_default_def toLowerCase_def isAccessory_def accessoryKeywords_def
      Let_def char_of_eq_iff)

text \<open>
  Claim C8 says that in every tier a variant whose decoded name contains one of the
  keywords is not a main product. The fallback parser decodes the name \<open>Phone Case\<close> from
  \<open>14:350685#Phone Case\<close>, a name that \<open>isAccessory\<close> accepts in lower case, and still
  marks the variant as a main product.
\<close>

theorem fallback_tier_never_marks_accessory:
  "name (html_sku_variant formatPrice phone_case_sku) = ''Phone Case''
   \<and> isAccessory (toLowerCase (name (html_sku_variant formatPrice phone_case_sku)))
   \<and> isMainProduct (html_sku_variant formatPrice phone_case_sku)"
  by (simp add: html_sku_variant_def phone_case_sku_def second_or_default_def
      toLowerCase_def isAccessory_def accessoryKeywords_def Let_def char_of_eq_iff)

section \<open>Properties of the resolver (claim C2)\<close>

lemma get_flag_unchanged: "isCacheDisabled (snd (CacheManager_get s key now)) = isCacheDisabled s"
  by (simp add: CacheManager_get_def saveToStorage_def split: option.splits)

text \<open>
  Claim C2 has the product written to the cache in every resolution and the failure of
  the primary tier propagated when no tier yields a product. Neither holds: when nothing
  is obtained the outer \<open>catch\<close> block swallows the error and the method resolves with
  \<open>null\<close>; and while the cache is disabled the product is returned but \<open>set\<close> stores
  nothing.
\<close>

theorem fetch_counterexample:
  "fetchProductData no_products ''1005'' None (Inl api_failure) (Inr None) 0 1 1
     = (Inr None, no_products)
   \<and> fst (fetchProductData no_products_disabled ''1005'' None (Inr some_product) (Inr None) 0 1 1)
       = Inr (Some some_product)
   \<and> map_get (cache (snd (fetchProductData no_products_disabled ''1005'' None
                             (Inr some_product) (Inr None) 0 1 1))) ''product_1005'' = None"
  by (simp add: fetchProductData_def no_products_def no_products_disabled_def
      CacheManager_get_def CacheManager_set_def map_get_def fetch_tiers_def cacheKey_def
      fetch_outer_catch_def mergeBasic_def Let_def)

text \<open>
  Claim C2, amended: in a resolution that is not a cache hit, (1) while the cache is
  enabled, the product the method resolves with is the data of the entry stored under
  \<open>product_<id>\<close>, and the stored snapshot equals the map; (2) while the cache is
  disabled, map and stored snapshot stay as they were, whatever is resolved, so the
  product of clauses 3 to 5 is returned without being cached; (3) a successful primary
  tier gives its product, completed from the basic product; (4) a failed primary tier
  and no basic product give the product of the fallback tier, if it yields one; (5) a
  failed primary tier and a fallback tier that yields nothing give the basic product, if
  there is one; (6) when no tier yields a product the method resolves with \<open>null\<close>,
  raises nothing and leaves the cache as the lookup left it.
\<close>

theorem fetch_caches_result:
  assumes miss: "fst (CacheManager_get s (cacheKey pid) tget) = None"
  shows "(\<not> isCacheDisabled s \<and>
            fst (fetchProductData s pid productData primary fallback tget t1 t2) = Inr (Some d)
          \<longrightarrow> map_get (cache (snd (fetchProductData s pid productData primary fallback tget t1 t2)))
                 (cacheKey pid)
               = Some \<lparr>data = d, timestamp = t1, expiresAt = t2 + 86400000\<rparr>
             \<and> storage (snd (fetchProductData s pid productData primary fallback tget t1 t2))
               = Some (cache (snd (fetchProductData s pid productData primary fallback tget t1 t2))))
       \<and> (isCacheDisabled s \<longrightarrow>
            snd (fetchProductData s pid productData primary fallback tget t1 t2) = s)
       \<and> (primary = Inr full \<longrightarrow>
            fst (fetchProductData s pid productData primary fallback tget t1 t2)
              = Inr (Some (mergeBasic full productData)))
       \<and> (primary = Inl e \<and> productData = None \<and> fallback = Inr (Some page) \<longrightarrow>
            fst (fetchProductData s pid productData primary fallback tget t1 t2) = Inr (Some page))
       \<and> (primary = Inl e \<and> productData = Some basic \<and> yields_nothing fallback \<longrightarrow>
            fst (fetchProductData s pid productData primary fallback tget t1 t2) = Inr (Some basic))
       \<and> (primary = Inl e \<and> productData = None \<and> yields_nothing fallback \<longrightarrow>
            fetchProductData s pid productData primary fallback tget t1 t2
              = (Inr None, snd (CacheManager_get s (cacheKey pid) tget)))"
proof -
  let ?key = "cacheKey pid"
  let ?s1 = "snd (CacheManager_get s ?key tget)"
  let ?r = "fetchProductData s pid productData primary fallback tget t1 t2"
  let ?f = "fetch_outer_catch productData (fetch_tiers productData primary fallback)"
  have r: "?r = (case ?f of
                   Some fetchedData \<Rightarrow>
                     (Inr (Some fetchedData),
                      CacheManager_set ?s1 ?key fetchedData (Some CACHE_CONFIG_variants) t1 t2)
                 | None \<Rightarrow> (Inr None, ?s1))"
    using miss by (simp add: fetchProductData_def Let_def)
  have cached: "map_get (cache (snd ?r)) ?key
                  = Some \<lparr>data = d, timestamp = t1, expiresAt = t2 + 86400000\<rparr>
                \<and> storage (snd ?r) = Some (cache (snd ?r))"
    if en: "\<not> isCacheDisabled s" and res: "fst ?r = Inr (Some d)"
  proof -
    from res r have f: "?f = Some d" by (cases ?f) auto
    have en1: "\<not> isCacheDisabled ?s1" using en by (simp add: get_flag_unchanged)
    have s': "snd ?r = CacheManager_set ?s1 ?key d (Some CACHE_CONFIG_variants) t1 t2"
      using r f by simp
    show ?thesis
      unfolding s'
      using set_cache_enabled [OF en1, of ?key d "Some CACHE_CONFIG_variants" t1 t2]
        set_storage_enabled [OF en1, of ?key d "Some CACHE_CONFIG_variants" t1 t2]
      by (simp add: effective_config_def map_get_set_same CACHE_CONFIG_variants_def)
  qed
  have off: "snd ?r = s" if "isCacheDisabled s"
    using that
    by (simp add: fetchProductData_def CacheManager_get_def CacheManager_set_def Let_def
        split: option.splits)
  have prim: "fst ?r = Inr (Some (mergeBasic full productData))" if "primary = Inr full"
    using r that by (simp add: fetch_tiers_def fetch_outer_catch_def)
  have page: "fst ?r = Inr (Some page)"
    if "primary = Inl e" "productData = None" "fallback = Inr (Some page)"
    using r that by (simp add: fetch_tiers_def fetch_outer_catch_def mergeBasic_def)
  have basic: "fst ?r = Inr (Some basic)"
    if "primary = Inl e" "productData = Some basic" "yields_nothing fallback"
    using r that
    by (simp add: fetch_tiers_def fetch_outer_catch_def yields_nothing_def
        split: sum.splits option.splits)
  have no_data: "?r = (Inr None, ?s1)"
    if "primary = Inl e" "productData = None" "yields_nothing fallback"
    using r that
    by (simp add: fetch_tiers_def fetch_outer_catch_def yields_nothing_def
        split: sum.splits option.splits)
  show ?thesis
  proof (intro conjI impI)
    assume "\<not> isCacheDisabled s \<and> fst ?r = Inr (Some d)"
    then show "map_get (cache (snd ?r)) ?key
         = Some \<lparr>data = d, timestamp = t1, expiresAt = t2 + 86400000\<rparr>"
      and "storage (snd ?r) = Some (cache (snd ?r))"
      using cached by blast+
  next
    assume "isCacheDisabled s"
    then show "snd ?r = s" by (rule off)
  next
    assume "primary = Inr full"
    then show "fst ?r = Inr (Some (mergeBasic full productData))" by (rule prim)
  next
    assume "primary = Inl e \<and> productData = None \<and> fallback = Inr (Some page)"
    then show "fst ?r = Inr (Some page)" using page by blast
  next
    assume "primary = Inl e \<and> productData = Some basic \<and> yields_nothing fallback"
    then show "fst ?r = Inr (Some basic)" using basic by blast
  next
    assume "primary = Inl e \<and> productData = None \<and> yields_nothing fallback"
    then have p: "primary = Inl e" and q: "productData = None" and y: "yields_nothing fallback"
      by simp_all
    show "?r = (Inr None, ?s1)" using no_data [OF p q y] .
  qed
qed


theorem fetch_caches_result_witness:
  "fst (fetchProductData no_products ''1005'' None (Inr some_product) (Inr None) 0 1 1)
     = Inr (Some some_product)
   \<and> map_get (cache (snd (fetchProductData no_products ''1005'' None (Inr some_product)
                           (Inr None) 0 1 1))) (cacheKey ''1005'')
     = Some \<lparr>data = some_product, timestamp = 1, expiresAt = 86400001\<rparr>
   \<and> fetchProductData no_products ''1005'' None (Inl api_failure) (Inr None) 0 1 1
     = (Inr None, no_products)
   \<and> fst (fetchProductData no_products ''1005'' (Some some_product) (Inl api_failure)
            (Inl api_failure) 0 1 1)
     = Inr (Some some_product)
   \<and> fetchProductData no_products_disabled ''1005'' None (Inr some_product) (Inr None) 0 1 1
     = (Inr (Some some_product), no_products_disabled)"
proof -
  have miss: "fst (CacheManager_get no_products (cacheKey ''1005'') 0) = None"
    and same: "snd (CacheManager_get no_products (cacheKey ''1005'') 0) = no_products"
    and enabled: "\<not> isCacheDisabled no_products"
    by (simp_all add: CacheManager_get_def no_products_def map_get_def)
  have no_data: "yields_nothing (Inr None)" "yields_nothing (Inl api_failure)"
    by (simp_all add: yields_nothing_def)
  have merged: "mergeBasic some_product None = some_product"
    by (simp add: mergeBasic_def)
  note ok = fetch_caches_result [OF miss, where primary = "Inr some_product"
      and productData = None and fallback = "Inr None" and ?t1.0 = 1 and ?t2.0 = 1
      and full = some_product and d = some_product]
  note none = fetch_caches_result [OF miss, where primary = "Inl api_failure"
      and productData = None and fallback = "Inr None" and ?t1.0 = 1 and ?t2.0 = 1
      and e = api_failure]
  note basic = fetch_caches_result [OF miss, where primary = "Inl api_failure"
      and productData = "Some some_product" and fallback = "Inl api_failure"
      and ?t1.0 = 1 and ?t2.0 = 1 and e = api_failure and basic = some_product]
  have r1: "fst (fetchProductData no_products ''1005'' None (Inr some_product) (Inr None) 0 1 1)
      = Inr (Some some_product)"
    using ok merged by simp
  with ok enabled
  have r2: "map_get (cache (snd (fetchProductData no_products ''1005'' None (Inr some_product)
                           (Inr None) 0 1 1))) (cacheKey ''1005'')
     = Some \<lparr>data = some_product, timestamp = 1, expiresAt = 86400001\<rparr>"
    by simp
  have r3: "fetchProductData no_products ''1005'' None (Inl api_failure) (Inr None) 0 1 1
     = (Inr None, no_products)"
    using no_data same none by simp
  have r4: "fst (fetchProductData no_products ''1005'' (Some some_product) (Inl api_failure)
            (Inl api_failure) 0 1 1) = Inr (Some some_product)"
    using no_data basic by simp
  have miss': "fst (CacheManager_get no_products_disabled (cacheKey ''1005'') 0) = None"
    and disabled: "isCacheDisabled no_products_disabled"
    by (simp_all add: CacheManager_get_def no_products_disabled_def)
  note unstored = fetch_caches_result [OF miss', where primary = "Inr some_product"
      and productData = None and fallback = "Inr None" and ?t1.0 = 1 and ?t2.0 = 1
      and full = some_product]
  have r5: "fetchProductData no_products_disabled ''1005'' None (Inr some_product) (Inr None) 0 1 1
     = (Inr (Some some_product), no_products_disabled)"
    using unstored disabled merged
    by (cases "fetchProductData no_products_disabled ''1005'' None (Inr some_product)
                 (Inr None) 0 1 1") simp
  from r1 r2 r3 r4 r5 show ?thesis by simp
qed

section \<open>Properties of request signing (claim C9)\<close>

subsection \<open>One block\<close>

text \<open>
  The unrolled rounds of \<open>md5cycle\<close> are the 64 steps of the standard: the rotation is
  the pair of shifts, \<open>add32\<close> is addition of words, and the program of the script is,
  group by group, the table of the standard.
\<close>

lemma word_rotl_shift:
  assumes "0 < s" and "s < 32"
  shows "word_rotl s (x :: 32 word) = push_bit s x OR drop_bit (32 - s) x"
proof (rule bit_word_eqI)
  fix n assume n: "n < LENGTH(32)"
  have high: "\<not> bit x k" if "32 \<le> k" for k
    using that by (auto dest: bit_imp_le_length)
  show "bit (word_rotl s x) n = bit (push_bit s x OR drop_bit (32 - s) x) n"
  proof (cases "s \<le> n")
    case True
    then have "(n + (32 - s)) mod 32 = n - s"
      using n assms by (simp add: mod_if)
    moreover have "\<not> bit x (32 - s + n)"
      using True assms by (intro high) simp
    ultimately show ?thesis
      using True n assms by (simp add: bit_simps)
  next
    case False
    then have "(n + (32 - s)) mod 32 = 32 - s + n"
      using n assms by simp
    then show ?thesis
      using False n assms by (simp add: bit_simps)
  qed
qed

lemma add32_plus: "add32 a b = a + b"
proof -
  have m: "(4294967295 :: 32 word) = - 1" by simp
  show ?thesis unfolding add32_def m by simp
qed

lemma cmn_rotl:
  assumes "0 < s" and "s < 32"
  shows "cmn q a b x s t = b + word_rotl s (a + q + x + t)"
  using assms by (simp add: cmn_def add32_plus Let_def word_rotl_shift ac_simps)

lemma program_by_groups: "md5_program = concat (map group_instrs [0..<16])"
  by (simp add: md5_program_def group_instrs_def group_mix_def rfc1321_g_def rfc1321_S_def rfc1321_K_def
      upt_rec)

lemma steps_by_groups:
  "[0..<64] = concat (map (\<lambda>q. [4 * q, 4 * q + 1, 4 * q + 2, 4 * q + 3]) [0..<16])"
  by (simp add: upt_rec)

lemma shifts_in_range: "i < 64 \<Longrightarrow> 0 < rfc1321_S ! i \<and> rfc1321_S ! i < 32"
proof -
  have "list_all (\<lambda>s. 0 < s \<and> s < 32) rfc1321_S"
    by (simp add: rfc1321_S_def)
  moreover have "length rfc1321_S = 64"
    by (simp add: rfc1321_S_def)
  ultimately show "i < 64 \<Longrightarrow> 0 < rfc1321_S ! i \<and> rfc1321_S ! i < 32"
    by (simp add: list_all_length)
qed

lemma mix_is_f:
  assumes "q < 16" and "r < 4" and "0 < s" and "s < 32"
  shows "mix_fn (group_mix q) a b c d x s t = b + word_rotl s (a + rfc1321_f (4 * q + r) b c d + x + t)"
proof -
  consider "q < 4" | "4 \<le> q" "q < 8" | "8 \<le> q" "q < 12" | "12 \<le> q" "q < 16"
    using assms(1) by linarith
  then show ?thesis
  proof cases
    case 1
    then have "group_mix q = FF" by (simp add: group_mix_def)
    moreover have "4 * q + r < 16" using 1 assms(2) by simp
    ultimately show ?thesis
      using assms(3,4) by (simp add: ff_def cmn_rotl rfc1321_f_def)
  next
    case 2
    then have "q div 4 = 1" by simp
    then have "group_mix q = GG" by (simp add: group_mix_def)
    moreover have "\<not> 4 * q + r < 16" "4 * q + r < 32" using 2 assms(2) by simp_all
    ultimately show ?thesis
      using assms(3,4) by (simp add: gg_def cmn_rotl rfc1321_f_def)
  next
    case 3
    then have "q div 4 = 2" by simp
    then have "group_mix q = HH" by (simp add: group_mix_def)
    moreover have "\<not> 4 * q + r < 16" "\<not> 4 * q + r < 32" "4 * q + r < 48"
      using 3 assms(2) by simp_all
    ultimately show ?thesis
      using assms(3,4) by (simp add: hh_def cmn_rotl rfc1321_f_def)
  next
    case 4
    then have "q div 4 = 3" by simp
    then have "group_mix q = II" by (simp add: group_mix_def)
    moreover have "\<not> 4 * q + r < 16" "\<not> 4 * q + r < 32" "\<not> 4 * q + r < 48"
      using 4 assms(2) by simp_all
    ultimately show ?thesis
      using assms(3,4) by (simp add: ii_def cmn_rotl rfc1321_f_def)
  qed
qed

lemma group_steps:
  assumes "q < 16"
  shows "fold (exec M) (group_instrs q) st
           = fold (rfc1321_step M) [4 * q, 4 * q + 1, 4 * q + 2, 4 * q + 3] st"
proof -
  obtain a b c d where st: "st = (a, b, c, d)" by (cases st) auto
  have s0: "0 < rfc1321_S ! (4 * q) \<and> rfc1321_S ! (4 * q) < 32"
    and s1: "0 < rfc1321_S ! (4 * q + 1) \<and> rfc1321_S ! (4 * q + 1) < 32"
    and s2: "0 < rfc1321_S ! (4 * q + 2) \<and> rfc1321_S ! (4 * q + 2) < 32"
    and s3: "0 < rfc1321_S ! (4 * q + 3) \<and> rfc1321_S ! (4 * q + 3) < 32"
    using assms by (simp_all add: shifts_in_range)
  show ?thesis
    unfolding st group_instrs_def
    using mix_is_f [OF assms, of 0] mix_is_f [OF assms, of 1] mix_is_f [OF assms, of 2]
      mix_is_f [OF assms, of 3] s0 s1 s2 s3
    by simp
qed

lemma fold_concat_map:
  "fold f (concat (map g xs)) st = fold (\<lambda>x. fold f (g x)) xs st"
  by (induction xs arbitrary: st) simp_all

lemma rounds_agree: "fold (exec M) md5_program st = fold (rfc1321_step M) [0..<64] st"
proof -
  have "fold (exec M) md5_program st = fold (\<lambda>q. fold (exec M) (group_instrs q)) [0..<16] st"
    by (simp only: program_by_groups fold_concat_map)
  also have "\<dots> = fold (\<lambda>q. fold (rfc1321_step M) [4 * q, 4 * q + 1, 4 * q + 2, 4 * q + 3]) [0..<16] st"
    by (rule fold_cong) (auto simp: group_steps)
  also have "\<dots> = fold (rfc1321_step M) [0..<64] st"
    by (simp only: steps_by_groups fold_concat_map)
  finally show ?thesis .
qed

lemma md5cycle_is_block: "md5cycle st M = rfc1321_block st M"
proof -
  obtain a b c d where st: "st = (a, b, c, d)" by (cases st) auto
  obtain a' b' c' d' where r: "fold (rfc1321_step M) [0..<64] (a, b, c, d) = (a', b', c', d')"
    by (cases "fold (rfc1321_step M) [0..<64] (a, b, c, d)") auto
  show ?thesis
    by (simp add: md5cycle_def rfc1321_block_def rounds_agree st r add32_plus add.commute)
qed

subsection \<open>The words of a block\<close>

text \<open>
  \<open>md5blk\<close> and the tail of \<open>md51\<close> decode bytes into little-endian words as the
  standard does, as long as every code unit is a byte.
\<close>

lemma ucast_byte_of_nat: "c < 256 \<Longrightarrow> (ucast (of_nat c :: byte) :: u32) = of_nat c"
  by (simp add: unsigned_of_nat take_bit_nat_eq_self)

lemma le32_Nil: "le32 [] = 0"
  by (simp add: le32_def)

lemma le32_Cons: "le32 (b # bs) = ucast b OR push_bit 8 (le32 bs)"
  by (simp add: le32_def)

lemma le32_zeros: "le32 (replicate k 0) = 0"
  by (induction k) (simp_all add: le32_Nil le32_Cons)

lemma le32_append_zeros: "le32 (bs @ replicate k 0) = le32 bs"
  by (induction bs) (simp_all add: le32_zeros le32_Nil le32_Cons)

lemma le32_snoc: "le32 (pre @ [b]) = le32 pre OR push_bit (8 * length pre) (ucast b)"
proof (induction pre)
  case Nil
  show ?case by (simp add: le32_Nil le32_Cons)
next
  case (Cons x pre)
  show ?case
    by (simp add: le32_Cons Cons.IH push_bit_or push_bit_push_bit or.assoc add.commute)
qed

lemma byte_plus_shifted: "ucast (b :: byte) + push_bit 8 (y :: u32) = ucast b OR push_bit 8 y"
  by (rule disjunctive_add) (auto simp: bit_simps dest: bit_imp_le_length)

lemma le32_four:
  "le32 [b0, b1, b2, b3]
     = ucast b0 + push_bit 8 (ucast b1) + push_bit 16 (ucast b2) + push_bit 24 (ucast b3)"
proof -
  have "le32 [b0, b1, b2, b3]
      = ucast b0 + push_bit 8 (ucast b1 + push_bit 8 (ucast b2 + push_bit 8 (ucast b3)))"
    by (simp only: le32_Cons le32_Nil push_bit_of_0 or.right_neutral
        byte_plus_shifted [symmetric])
  then show ?thesis
    by (simp add: push_bit_add push_bit_push_bit add.assoc)
qed

lemma take4_drop:
  assumes "4 * i + 4 \<le> length xs"
  shows "take 4 (drop (4 * i) xs) = [xs ! (4 * i), xs ! (4 * i + 1), xs ! (4 * i + 2), xs ! (4 * i + 3)]"
proof (rule nth_equalityI)
  show "length (take 4 (drop (4 * i) xs))
      = length [xs ! (4 * i), xs ! (4 * i + 1), xs ! (4 * i + 2), xs ! (4 * i + 3)]"
    using assms by simp
next
  fix j assume "j < length (take 4 (drop (4 * i) xs))"
  then have "j < 4" by simp
  then consider "j = 0" | "j = 1" | "j = 2" | "j = 3" by linarith
  then show "take 4 (drop (4 * i) xs) ! j
      = [xs ! (4 * i), xs ! (4 * i + 1), xs ! (4 * i + 2), xs ! (4 * i + 3)] ! j"
    using assms by cases simp_all
qed

lemma block_words_length: "length (block_words blk) = 16"
  by (simp add: block_words_def)

lemma block_words_nth: "w < 16 \<Longrightarrow> block_words blk ! w = le32 (take 4 (drop (4 * w) blk))"
  by (simp add: block_words_def)

lemma md5blk_is_block_words:
  assumes "length blk = 64" and "\<forall>c\<in>set blk. c < 256"
  shows "md5blk blk = block_words (map of_nat blk)"
proof (rule nth_equalityI)
  show "length (md5blk blk) = length (block_words (map of_nat blk))"
    by (simp add: md5blk_def block_words_def)
next
  fix w assume "w < length (md5blk blk)"
  then have w: "w < 16" by (simp add: md5blk_def)
  then have len: "4 * w + 4 \<le> length (map of_nat blk :: byte list)"
    using assms(1) by simp
  have small: "blk ! j < 256" if "j < 64" for j
    using assms that by (auto simp: all_set_conv_all_nth)
  have "block_words (map of_nat blk) ! w
      = le32 [of_nat (blk ! (4 * w)), of_nat (blk ! (4 * w + 1)),
              of_nat (blk ! (4 * w + 2)), of_nat (blk ! (4 * w + 3))]"
    using w assms(1) by (simp add: block_words_nth take4_drop [OF len])
  also have "\<dots> = of_nat (blk ! (4 * w)) + push_bit 8 (of_nat (blk ! (4 * w + 1)))
      + push_bit 16 (of_nat (blk ! (4 * w + 2))) + push_bit 24 (of_nat (blk ! (4 * w + 3)))"
    using w by (simp add: le32_four ucast_byte_of_nat small)
  finally show "md5blk blk ! w = block_words (map of_nat blk) ! w"
    using w by (simp add: md5blk_def)
qed

lemma block_words_append_zeros: "block_words (blk @ replicate k 0) = block_words blk"
  by (simp add: block_words_def le32_append_zeros)

lemma zero_tail_is_empty_block: "zero_tail = block_words []"
  by (simp add: zero_tail_def block_words_def le32_Nil upt_rec)

lemma or_into_nth:
  assumes "length ws = 16" and "i < 64" and "w < 16"
  shows "or_into ws i v ! w
           = (if w = i div 4 then ws ! w OR push_bit ((i mod 4) * 8) v else ws ! w)"
  using assms by (simp add: or_into_def nth_list_update)

lemma or_into_length: "length (or_into ws i v) = length ws"
  by (simp add: or_into_def)

lemma block_words_snoc:
  assumes "length bs < 64"
  shows "or_into (block_words bs) (length bs) (ucast b) = block_words (bs @ [b])"
proof (rule nth_equalityI)
  show "length (or_into (block_words bs) (length bs) (ucast b)) = length (block_words (bs @ [b]))"
    by (simp add: or_into_length block_words_length)
next
  fix w assume "w < length (or_into (block_words bs) (length bs) (ucast b))"
  then have w: "w < 16" by (simp add: or_into_length block_words_length)
  let ?L = "length bs"
  consider "w < ?L div 4" | "w = ?L div 4" | "?L div 4 < w" by linarith
  then have "le32 (take 4 (drop (4 * w) (bs @ [b])))
      = (if w = ?L div 4
         then le32 (take 4 (drop (4 * w) bs)) OR push_bit ((?L mod 4) * 8) (ucast b)
         else le32 (take 4 (drop (4 * w) bs)))"
  proof cases
    case 1
    then have "4 * w + 4 \<le> ?L" by simp
    then show ?thesis using 1 by simp
  next
    case 2
    then have le: "4 * w \<le> ?L" and m: "?L - 4 * w = ?L mod 4"
      by (simp_all add: minus_mult_div_eq_mod mult.commute)
    have short: "length (drop (4 * w) bs) = ?L mod 4" using m by simp
    have "take 4 (drop (4 * w) (bs @ [b])) = drop (4 * w) bs @ [b]"
      using le short by simp
    moreover have "take 4 (drop (4 * w) bs) = drop (4 * w) bs"
      using short by simp
    ultimately show ?thesis
      using 2 short by (simp add: le32_snoc mult.commute)
  next
    case 3
    then have "?L < 4 * w" by (simp add: div_less_iff_less_mult mult.commute)
    then show ?thesis using 3 by simp
  qed
  then show "or_into (block_words bs) (length bs) (ucast b) ! w = block_words (bs @ [b]) ! w"
    using w assms by (simp add: or_into_nth block_words_length block_words_nth)
qed

subsection \<open>Padding and length\<close>

text \<open>
  The tail handling of \<open>md51\<close> is the padding of the standard as long as the length
  in bits fits the one word that the script stores.
\<close>

lemma tail_fold_is_block_words:
  assumes "\<forall>c\<in>set r. c < 256" and "length r \<le> 64"
  shows "fold (\<lambda>i ws. or_into ws i (of_nat (r ! i))) [0..<length r] zero_tail
           = block_words (map of_nat r)"
  using assms
proof (induction r rule: rev_induct)
  case Nil
  show ?case by (simp add: zero_tail_is_empty_block)
next
  case (snoc c r)
  have small: "c < 256" and rest: "\<forall>c\<in>set r. c < 256" and len: "length r < 64"
    using snoc.prems by simp_all
  have "fold (\<lambda>i ws. or_into ws i (of_nat ((r @ [c]) ! i))) [0..<length r] zero_tail
      = fold (\<lambda>i ws. or_into ws i (of_nat (r ! i))) [0..<length r] zero_tail"
    by (rule fold_cong) (simp_all add: nth_append)
  also have "\<dots> = block_words (map of_nat r)"
    using snoc.IH rest len by simp
  finally have before: "fold (\<lambda>i ws. or_into ws i (of_nat ((r @ [c]) ! i))) [0..<length r] zero_tail
      = block_words (map of_nat r)" .
  have "or_into (block_words (map of_nat r)) (length r) (of_nat c)
      = block_words (map of_nat r @ [of_nat c])"
    using block_words_snoc [of "map of_nat r" "of_nat c"] len small
    by (simp add: ucast_byte_of_nat)
  with before show ?case by simp
qed

lemma low_bytes_word:
  "le32 [ucast x, ucast (drop_bit 8 x), ucast (drop_bit 16 x), ucast (drop_bit 24 x)] = ucast x"
  for x :: "64 word"
proof (rule bit_word_eqI)
  fix n assume "n < LENGTH(32)"
  then consider "n < 8" | "8 \<le> n" "n < 16" | "16 \<le> n" "n < 24" | "24 \<le> n" "n < 32"
    by fastforce
  then show "bit (le32 [ucast x, ucast (drop_bit 8 x), ucast (drop_bit 16 x),
                        ucast (drop_bit 24 x)]) n = bit (ucast x :: u32) n"
  proof cases
    case 1
    then show ?thesis by (simp add: le32_Cons le32_Nil bit_simps)
  next
    case 2
    then have "n - 8 < 8" "8 + (n - 8) = n" "\<not> n < 8" by simp_all
    then show ?thesis using 2 by (auto simp add: le32_Cons le32_Nil bit_simps)
  next
    case 3
    then have "n - 16 < 8" "16 + (n - 16) = n" "\<not> n < 8" "\<not> n - 8 < 8" "n - 8 - 8 = n - 16"
      by simp_all
    then show ?thesis using 3 by (auto simp add: le32_Cons le32_Nil bit_simps)
  next
    case 4
    then have "n - 24 < 8" "24 + (n - 24) = n" "\<not> n < 8" "\<not> n - 8 < 8" "\<not> n - 16 < 8"
      "n - 8 - 8 = n - 16" "n - 16 - 8 = n - 24"
      by simp_all
    then show ?thesis using 4 by (auto simp add: le32_Cons le32_Nil bit_simps)
  qed
qed

lemma ucast64_of_nat: "(ucast (of_nat m :: 64 word) :: u32) = of_nat m"
  by (rule bit_word_eqI) (simp add: bit_simps)

lemma length_bytes_low:
  "le32 (take 4 (length_bytes n)) = of_nat (8 * n)"
proof -
  have "take 4 (length_bytes n)
      = [ucast (of_nat (8 * n) :: 64 word), ucast (drop_bit 8 (of_nat (8 * n) :: 64 word)),
         ucast (drop_bit 16 (of_nat (8 * n) :: 64 word)),
         ucast (drop_bit 24 (of_nat (8 * n) :: 64 word))]"
    by (simp add: length_bytes_def upt_rec)
  then have "le32 (take 4 (length_bytes n)) = ucast (of_nat (8 * n) :: 64 word)"
    by (simp only: low_bytes_word)
  also have "\<dots> = of_nat (8 * n)"
    by (rule ucast64_of_nat)
  finally show ?thesis .
qed

lemma length_bytes_high:
  assumes "8 * n < 2 ^ 32"
  shows "le32 (drop 4 (length_bytes n)) = 0"
proof -
  let ?y = "drop_bit 32 (of_nat (8 * n) :: 64 word)"
  have "drop 4 (length_bytes n)
      = [ucast ?y, ucast (drop_bit 8 ?y), ucast (drop_bit 16 ?y), ucast (drop_bit 24 ?y)]"
    by (simp add: length_bytes_def upt_rec drop_bit_drop_bit)
  then have "le32 (drop 4 (length_bytes n)) = ucast ?y"
    by (simp only: low_bytes_word)
  moreover have "?y = 0"
  proof -
    have "unat (of_nat (8 * n) :: 64 word) = (8 * n) mod 2 ^ LENGTH(64)"
      by (rule unat_of_nat)
    also have "\<dots> = 8 * n"
      using assms by simp
    finally have u: "unat (of_nat (8 * n) :: 64 word) = 8 * n" .
    have "unat ?y = drop_bit 32 (unat (of_nat (8 * n) :: 64 word))"
      by (rule unat_drop_bit_eq)
    also have "\<dots> = drop_bit 32 (8 * n)"
      by (simp only: u)
    also have "\<dots> = 0"
      using assms by (simp add: drop_bit_eq_div)
    finally have "unat ?y = 0" .
    then show ?thesis by (simp add: unat_eq_0)
  qed
  ultimately show ?thesis by simp
qed

lemma length_bytes_length: "length (length_bytes n) = 8"
  by (simp add: length_bytes_def)

lemma block_words_with_length:
  assumes "length pre = 56" and "8 * n < 2 ^ 32"
  shows "block_words (pre @ length_bytes n) = (block_words pre)[14 := of_nat (8 * n)]"
proof (rule nth_equalityI)
  show "length (block_words (pre @ length_bytes n)) = length ((block_words pre)[14 := of_nat (8 * n)])"
    by (simp add: block_words_length)
next
  fix w assume "w < length (block_words (pre @ length_bytes n))"
  then have w: "w < 16" by (simp add: block_words_length)
  then consider "w < 14" | "w = 14" | "w = 15" by linarith
  then show "block_words (pre @ length_bytes n) ! w = (block_words pre)[14 := of_nat (8 * n)] ! w"
  proof cases
    case 1
    then have "4 * w + 4 \<le> 56" by simp
    then show ?thesis
      using 1 w assms(1) by (simp add: block_words_nth block_words_length)
  next
    case 2
    then show ?thesis
      using assms(1) by (simp add: block_words_nth block_words_length length_bytes_low)
  next
    case 3
    then show ?thesis
      using assms by (simp add: block_words_nth block_words_length length_bytes_high
          length_bytes_length le32_Nil)
  qed
qed

lemma rfc1321_blocks_append:
  assumes "length xs = 64 * m"
  shows "rfc1321_blocks (xs @ ys) = rfc1321_blocks xs @ rfc1321_blocks ys"
proof -
  let ?t = "length ys div 64"
  have "[0..<m + ?t] = [0..<m] @ [m..<m + ?t]"
    by (rule upt_add_eq_append) simp
  also have "[m..<m + ?t] = map (\<lambda>j. j + m) [0..<?t]"
    by (metis map_add_upt add.commute)
  finally have split: "[0..<m + ?t] = [0..<m] @ map (\<lambda>j. j + m) [0..<?t]" .
  have first: "map (\<lambda>j. take 64 (drop (64 * j) (xs @ ys))) [0..<m]
      = map (\<lambda>j. take 64 (drop (64 * j) xs)) [0..<m]"
  proof (rule map_cong [OF refl])
    fix j assume "j \<in> set [0..<m]"
    then have "64 * j + 64 \<le> length xs" using assms by simp
    then show "take 64 (drop (64 * j) (xs @ ys)) = take 64 (drop (64 * j) xs)" by simp
  qed
  have shifted: "drop (64 * (j + m)) (xs @ ys) = drop (64 * j) ys" for j
  proof -
    have "64 * (j + m) = length xs + 64 * j"
      using assms by (simp only: distrib_left add.commute)
    then show ?thesis by (simp only: drop_append) simp
  qed
  have second: "map (\<lambda>j. take 64 (drop (64 * j) (xs @ ys))) (map (\<lambda>j. j + m) [0..<?t])
      = map (\<lambda>j. take 64 (drop (64 * j) ys)) [0..<?t]"
    by (simp only: map_map o_def shifted)
  have total: "length (xs @ ys) div 64 = m + ?t"
    using assms by simp
  have "rfc1321_blocks (xs @ ys) = map (\<lambda>j. take 64 (drop (64 * j) (xs @ ys))) [0..<m + ?t]"
    by (simp only: rfc1321_blocks_def total)
  also have "\<dots> = map (\<lambda>j. take 64 (drop (64 * j) xs)) [0..<m]
      @ map (\<lambda>j. take 64 (drop (64 * j) ys)) [0..<?t]"
    unfolding split map_append first second ..
  also have "\<dots> = rfc1321_blocks xs @ rfc1321_blocks ys"
    using assms by (simp add: rfc1321_blocks_def)
  finally show ?thesis .
qed

lemma rfc1321_blocks_one: "length q = 64 \<Longrightarrow> rfc1321_blocks q = [q]"
  by (simp add: rfc1321_blocks_def)

lemma upt_two: "[0..<2] = [0, 1]"
  by (simp add: upt_rec)

lemma rfc1321_blocks_two: "length q = 128 \<Longrightarrow> rfc1321_blocks q = [take 64 q, drop 64 q]"
  by (simp add: rfc1321_blocks_def upt_two)

lemma init_agrees: "md5_init = rfc1321_initial"
  by (simp add: md5_init_def rfc1321_initial_def)

lemma full_blocks_agree:
  assumes "\<forall>c\<in>set s. c < 256"
  shows "fold (\<lambda>blk st. rfc1321_block st (block_words blk))
           (rfc1321_blocks (take (64 * (length s div 64)) (map of_nat s))) st0
         = fold (\<lambda>j st. md5cycle st (md5blk (take 64 (drop (64 * j) s))))
             [0..<length s div 64] st0"
proof -
  let ?k = "length s div 64"
  let ?bs = "map of_nat s :: byte list"
  have k: "64 * ?k \<le> length s" by simp
  have blocks: "rfc1321_blocks (take (64 * ?k) ?bs)
      = map (\<lambda>j. take 64 (drop (64 * j) (take (64 * ?k) ?bs))) [0..<?k]"
    using k by (simp add: rfc1321_blocks_def min_def)
  have each: "rfc1321_block st (block_words (take 64 (drop (64 * j) (take (64 * ?k) ?bs))))
      = md5cycle st (md5blk (take 64 (drop (64 * j) s)))"
    if "j \<in> set [0..<?k]" for j st
  proof -
    from that have j: "64 * j + 64 \<le> 64 * ?k" by simp
    let ?chunk = "take 64 (drop (64 * j) s)"
    have len: "length ?chunk = 64" using j k by simp
    have small: "\<forall>c\<in>set ?chunk. c < 256"
      using assms by (auto dest: in_set_takeD in_set_dropD)
    have "take 64 (drop (64 * j) (take (64 * ?k) ?bs)) = take 64 (drop (64 * j) ?bs)"
      using j by (simp add: drop_take min_def)
    also have "\<dots> = map of_nat ?chunk"
      by (simp add: take_map drop_map)
    finally show ?thesis
      by (simp add: md5blk_is_block_words [OF len small] md5cycle_is_block)
  qed
  show ?thesis
    unfolding blocks fold_map
    by (rule fold_cong) (simp_all add: each)
qed

lemma block_words_zeros: "block_words (replicate k 0) = zero_tail"
  using block_words_append_zeros [of "[]" k] by (simp add: zero_tail_is_empty_block)

lemma digest_short_tail:
  assumes pre: "length pre = 64 * k" and r: "length rem \<le> 55"
    and n: "8 * (length pre + length rem) < 2 ^ 32"
  shows "rfc1321_digest (pre @ rem)
    = rfc1321_block (fold (\<lambda>blk st. rfc1321_block st (block_words blk)) (rfc1321_blocks pre) rfc1321_initial)
        ((block_words (rem @ [0x80]))[14 := of_nat (8 * (length pre + length rem))])"
proof -
  let ?n = "length pre + length rem"
  let ?z = "replicate (55 - length rem) (0 :: byte)"
  let ?last = "((rem @ [0x80]) @ ?z) @ length_bytes ?n"
  have m: "(length pre + length rem) mod 64 = length rem"
    using pre r by simp
  have "119 - length rem = 64 + (55 - length rem)"
    using r by simp
  then have "(119 - length rem) mod 64 = (64 + (55 - length rem)) mod 64"
    by (rule arg_cong)
  also have "\<dots> = (55 - length rem) mod 64"
    by (rule mod_add_self1)
  also have "\<dots> = 55 - length rem"
    by (rule mod_less) simp
  finally have z: "(119 - length rem) mod 64 = 55 - length rem" .
  have pad: "rfc1321_pad (pre @ rem) = pre @ ?last"
    by (simp add: rfc1321_pad_def m z)
  have len: "length ?last = 64"
    using r by (simp add: length_bytes_length)
  have blocks: "rfc1321_blocks (rfc1321_pad (pre @ rem)) = rfc1321_blocks pre @ [?last]"
    unfolding pad by (simp only: rfc1321_blocks_append [OF pre] rfc1321_blocks_one [OF len])
  have l56: "length ((rem @ [0x80]) @ ?z) = 56"
    using r by simp
  have words: "block_words ?last = (block_words (rem @ [0x80]))[14 := of_nat (8 * ?n)]"
    by (simp only: block_words_with_length [OF l56 n] block_words_append_zeros)
  show ?thesis
    unfolding rfc1321_digest_def blocks fold_append o_apply fold_simps words ..
qed

lemma digest_long_tail:
  assumes pre: "length pre = 64 * k" and r: "55 < length rem" "length rem < 64"
    and n: "8 * (length pre + length rem) < 2 ^ 32"
  shows "rfc1321_digest (pre @ rem)
    = rfc1321_block
        (rfc1321_block (fold (\<lambda>blk st. rfc1321_block st (block_words blk)) (rfc1321_blocks pre) rfc1321_initial)
           (block_words (rem @ [0x80])))
        (zero_tail[14 := of_nat (8 * (length pre + length rem))])"
proof -
  let ?n = "length pre + length rem"
  let ?z = "replicate (63 - length rem) (0 :: byte)"
  let ?b1 = "(rem @ [0x80]) @ ?z"
  let ?b2 = "replicate 56 (0 :: byte) @ length_bytes ?n"
  have m: "(length pre + length rem) mod 64 = length rem"
    using pre r by simp
  have z: "replicate ((119 - length rem) mod 64) (0 :: byte) = ?z @ replicate 56 0"
  proof -
    have "(119 - length rem) mod 64 = (63 - length rem) + 56"
      using r by simp
    then show ?thesis by (simp only: replicate_add)
  qed
  have pad: "rfc1321_pad (pre @ rem) = pre @ (?b1 @ ?b2)"
    by (simp add: rfc1321_pad_def m z)
  have len1: "length ?b1 = 64 * 1"
    using r by simp
  have len1': "length ?b1 = 64"
    using r by simp
  have len2: "length ?b2 = 64"
    by (simp add: length_bytes_length)
  have blocks: "rfc1321_blocks (rfc1321_pad (pre @ rem)) = rfc1321_blocks pre @ [?b1, ?b2]"
    unfolding pad
    by (simp only: rfc1321_blocks_append [OF pre] rfc1321_blocks_append [OF len1]
        rfc1321_blocks_one [OF len1'] rfc1321_blocks_one [OF len2] append_Cons append_Nil)
  have l56: "length (replicate 56 (0 :: byte)) = 56"
    by simp
  have words1: "block_words ?b1 = block_words (rem @ [0x80])"
    by (simp only: block_words_append_zeros)
  have words2: "block_words ?b2 = zero_tail[14 := of_nat (8 * ?n)]"
    by (simp only: block_words_with_length [OF l56 n] block_words_zeros)
  show ?thesis
    unfolding rfc1321_digest_def blocks fold_append o_apply fold_simps words1 words2 ..
qed

lemma byte_0x80: "(ucast (0x80 :: byte) :: u32) = 0x80"
  by simp

lemma md51_is_digest:
  assumes small: "\<forall>c\<in>set s. c < 256" and len: "length s < 2 ^ 29"
  shows "md51 s = rfc1321_digest (map of_nat s)"
proof -
  let ?n = "length s"
  let ?k = "?n div 64"
  let ?bs = "map of_nat s :: byte list"
  let ?pre = "take (64 * ?k) ?bs"
  let ?rem = "drop (64 * ?k) ?bs"
  let ?s' = "drop (64 * ?k) s"
  let ?st = "fold (\<lambda>j st. md5cycle st (md5blk (take 64 (drop (64 * j) s)))) [0..<?n div 64] md5_init"
  have k: "64 * ?k \<le> ?n" by simp
  have pre: "length ?pre = 64 * ?k" using k by simp
  have rem: "length ?rem = ?n mod 64"
    by (simp add: minus_mult_div_eq_mod)
  have s': "length ?s' = ?n mod 64"
    by (simp add: minus_mult_div_eq_mod)
  have total: "length ?pre + length ?rem = ?n"
    using k by simp
  have n: "8 * (length ?pre + length ?rem) < 2 ^ 32"
    unfolding total using len by simp
  have small': "\<forall>c\<in>set ?s'. c < 256"
    using small by (auto dest: in_set_dropD)
  have short: "length ?s' \<le> 64"
    unfolding s' by simp
  have state: "fold (\<lambda>blk st. rfc1321_block st (block_words blk)) (rfc1321_blocks ?pre) rfc1321_initial = ?st"
    using full_blocks_agree [OF small, of rfc1321_initial] by (simp only: init_agrees)
  have tail: "fold (\<lambda>i ws. or_into ws i (of_nat (?s' ! i))) [0..<length ?s'] zero_tail
      = block_words ?rem"
    using tail_fold_is_block_words [OF small' short] by (simp only: drop_map)
  have lt: "length ?rem < 64"
    unfolding rem by simp
  have marked: "or_into (block_words ?rem) (length ?s') 0x80 = block_words (?rem @ [0x80])"
    using block_words_snoc [OF lt, of "0x80"] by (simp only: byte_0x80 rem s')
  have whole: "?pre @ ?rem = ?bs"
    by simp
  have comm: "?n * 8 = 8 * ?n"
    by simp
  show ?thesis
  proof (cases "55 < length ?s'")
    case True
    then have r: "55 < length ?rem" by (simp only: rem s')
    have "rfc1321_digest (?pre @ ?rem)
        = rfc1321_block (rfc1321_block ?st (block_words (?rem @ [0x80]))) (zero_tail[14 := of_nat (8 * ?n)])"
      using digest_long_tail [OF pre r lt n] by (simp only: state total)
    moreover have "md51 s
        = md5cycle (md5cycle ?st (block_words (?rem @ [0x80]))) (zero_tail[14 := of_nat (8 * ?n)])"
      unfolding md51_def Let_def tail marked comm using True by (simp only: if_True)
    ultimately show ?thesis
      by (simp only: whole md5cycle_is_block)
  next
    case False
    then have r: "length ?rem \<le> 55" by (simp add: rem s')
    have "rfc1321_digest (?pre @ ?rem)
        = rfc1321_block ?st ((block_words (?rem @ [0x80]))[14 := of_nat (8 * ?n)])"
      using digest_short_tail [OF pre r n] by (simp only: state total)
    moreover have "md51 s
        = md5cycle ?st ((block_words (?rem @ [0x80]))[14 := of_nat (8 * ?n)])"
      unfolding md51_def Let_def tail marked comm using False by (simp only: if_False)
    ultimately show ?thesis
      by (simp only: whole md5cycle_is_block)
  qed
qed

subsection \<open>Hexadecimal output\<close>

lemma and_15: "(x :: u32) AND 0x0F = take_bit 4 x"
proof -
  have "(0x0F :: u32) = mask 4"
    by (simp add: mask_eq_exp_minus_1)
  then show ?thesis
    by (simp only: take_bit_eq_mask)
qed

lemma signed_shift_nibble:
  fixes n :: u32
  assumes "k \<le> 28"
  shows "take_bit 4 (signed_drop_bit k n) = take_bit 4 (drop_bit k n)"
proof (rule bit_word_eqI)
  fix i assume "i < LENGTH(32)"
  show "bit (take_bit 4 (signed_drop_bit k n)) i = bit (take_bit 4 (drop_bit k n)) i"
  proof (cases "i < 4")
    case True
    then have "\<not> 32 - k \<le> i" using assms by simp
    then show ?thesis using True by (simp add: bit_take_bit_iff bit_signed_drop_bit_iff bit_drop_bit_eq)
  next
    case False
    then show ?thesis by (simp add: bit_take_bit_iff)
  qed
qed

lemma nibble:
  fixes n :: u32
  assumes "k \<le> 28"
  shows "unat (signed_drop_bit k n AND 0x0F) = unat n div 2 ^ k mod 16"
proof -
  have "take_bit 4 (signed_drop_bit k n) = take_bit 4 (drop_bit k n)"
    using assms by (rule signed_shift_nibble)
  then have "unat (signed_drop_bit k n AND 0x0F) = unat (take_bit 4 (drop_bit k n))"
    by (simp only: and_15)
  also have "\<dots> = take_bit 4 (drop_bit k (unat n))"
    by (simp only: unsigned_take_bit_eq unat_drop_bit_eq)
  also have "\<dots> = unat n div 2 ^ k mod 16"
    by (simp add: take_bit_eq_mod drop_bit_eq_div)
  finally show ?thesis .
qed

lemma byte_of_word:
  fixes n :: u32
  shows "unat (ucast (drop_bit k n) :: byte) = unat n div 2 ^ k mod 256"
proof -
  have "unat (ucast (drop_bit k n) :: byte) = take_bit 8 (unat (drop_bit k n))"
    by (simp add: unsigned_ucast_eq)
  also have "\<dots> = take_bit 8 (drop_bit k (unat n))"
    by (simp only: unat_drop_bit_eq)
  also have "\<dots> = unat n div 2 ^ k mod 256"
    by (simp add: take_bit_eq_mod drop_bit_eq_div)
  finally show ?thesis .
qed

lemma high_nibble: "(x :: nat) mod 256 div 16 = x div 16 mod 16"
proof -
  have "x mod (16 * 16) div 16 = x div 16 mod 16"
    by (simp only: mod_mult2_eq)
  then show ?thesis by simp
qed

lemma low_nibble: "(x :: nat) mod 256 mod 16 = x mod 16"
  by (rule mod_mod_cancel) simp

lemma shift_nibble: "(u :: nat) div 2 ^ (j * 8 + 4) = u div 2 ^ (8 * j) div 16"
proof -
  have "(2 :: nat) ^ (j * 8 + 4) = 2 ^ (8 * j) * 16"
    by (simp add: power_add mult.commute)
  then show ?thesis
    by (simp only: div_mult2_eq)
qed

lemma rhex_pair:
  assumes "j < 4"
  shows "[hex_chr (signed_drop_bit (j * 8 + 4) n AND 0x0F), hex_chr (signed_drop_bit (j * 8) n AND 0x0F)]
    = hex_byte (ucast (drop_bit (8 * j) n))"
proof -
  let ?x = "unat n div 2 ^ (8 * j)"
  have hi: "unat (signed_drop_bit (j * 8 + 4) n AND 0x0F) = unat n div 2 ^ (j * 8 + 4) mod 16"
    using assms by (intro nibble) simp
  have lo: "unat (signed_drop_bit (j * 8) n AND 0x0F) = unat n div 2 ^ (j * 8) mod 16"
    using assms by (intro nibble) simp
  have shift: "unat n div 2 ^ (j * 8 + 4) = ?x div 16"
    by (rule shift_nibble)
  have same: "unat n div 2 ^ (j * 8) = ?x"
    by (simp only: mult.commute [of j 8])
  show ?thesis
    unfolding hex_byte_def hex_chr_def hex_digit_def hi lo byte_of_word shift same
      high_nibble low_nibble ..
qed

lemma rhex_is_le_bytes: "rhex n = concat (map hex_byte (le_bytes n))"
proof -
  have "map (\<lambda>j. [hex_chr (signed_drop_bit (j * 8 + 4) n AND 0x0F),
                    hex_chr (signed_drop_bit (j * 8) n AND 0x0F)]) [0..<4]
      = map (\<lambda>j. hex_byte (ucast (drop_bit (8 * j) n))) [0..<4]"
    by (rule map_cong [OF refl]) (simp add: rhex_pair)
  then show ?thesis
    by (simp only: rhex_def le_bytes_def map_map o_def)
qed

lemma hex_is_digest_hex: "hex st = concat (map hex_byte (digest_bytes st))"
  by (cases st) (simp add: rhex_is_le_bytes)

lemma hex_md51_is_rfc1321_hex:
  assumes "\<forall>c\<in>set s. c < 256" and "length s < 2 ^ 29"
  shows "hex (md51 s) = rfc1321_hex (map of_nat s)"
  by (simp only: rfc1321_hex_def hex_is_digest_hex md51_is_digest [OF assms])

subsection \<open>UTF-8\<close>

lemma map_sum_Inr_iff: "(map_sum id f x = Inr u) = (\<exists>r. x = Inr r \<and> u = f r)"
  by (cases x) auto

lemma continuation_byte: "128 + (x :: nat) mod 64 < 256"
  using mod_less_divisor [of 64 x] by linarith

lemma utf8_encode_bytes:
  assumes "utf8_encode s = Inr u" and "\<forall>c\<in>set s. c < 65536"
  shows "\<forall>b\<in>set u. b < 256"
  using assms
proof (induction s arbitrary: u rule: utf8_encode.induct)
  case 1
  then show ?case by simp
next
  case (2 c cs)
  have c: "c < 65536" and rest: "\<forall>c\<in>set cs. c < 65536"
    using "2.prems"(2) by simp_all
  consider (one) "c < 0x80" | (two) "0x80 \<le> c" "c < 0x800"
    | (high) "0x800 \<le> c" "0xD800 \<le> c" "c < 0xDC00"
    | (low) "0x800 \<le> c" "0xDC00 \<le> c" "c < 0xE000"
    | (three) "0x800 \<le> c" "\<not> (0xD800 \<le> c \<and> c < 0xDC00)" "\<not> (0xDC00 \<le> c \<and> c < 0xE000)"
    by linarith
  then show ?case
  proof cases
    case one
    then obtain r where r: "utf8_encode cs = Inr r" and u: "u = c # r"
      using "2.prems"(1) by (auto simp add: map_sum_Inr_iff)
    have "\<forall>b\<in>set r. b < 256"
      using "2.IH"(1) [OF one r rest] .
    then show ?thesis using u one by simp
  next
    case two
    then have n1: "\<not> c < 0x80" by simp
    obtain r where r: "utf8_encode cs = Inr r"
      and u: "u = (0xC0 + c div 64) # (0x80 + c mod 64) # r"
      using "2.prems"(1) two by (auto simp add: map_sum_Inr_iff)
    have "\<forall>b\<in>set r. b < 256"
      using "2.IH"(2) [OF n1 two(2) r rest] .
    moreover have "0xC0 + c div 64 < 256" "0x80 + c mod 64 < 256"
      using two by simp_all
    ultimately show ?thesis using u by (simp add: continuation_byte)
  next
    case high
    then have n1: "\<not> c < 0x80" and n2: "\<not> c < 0x800" and h: "0xD800 \<le> c \<and> c < 0xDC00"
      by simp_all
    from "2.prems"(1) n1 n2 h obtain d ds where cs: "cs = d # ds"
      by (cases cs) simp_all
    from "2.prems"(1) n1 n2 h cs have d: "0xDC00 \<le> d \<and> d < 0xE000"
      by (simp split: if_splits)
    define cp where "cp = 0x10000 + (c - 0xD800) * 1024 + (d - 0xDC00)"
    obtain r where r: "utf8_encode ds = Inr r"
      and u: "u = (0xF0 + cp div 262144) # (0x80 + cp div 4096 mod 64)
                  # (0x80 + cp div 64 mod 64) # (0x80 + cp mod 64) # r"
      using "2.prems"(1) n1 n2 h cs d by (auto simp add: map_sum_Inr_iff Let_def cp_def)
    have rest': "\<forall>c\<in>set ds. c < 65536"
      using rest cs by simp
    have "\<forall>b\<in>set r. b < 256"
      using "2.IH"(3) [OF n1 n2 h cs d cp_def r rest'] .
    moreover have "cp < 0x110000"
    proof -
      have "c - 0xD800 \<le> 1023" using h by linarith
      then have "(c - 0xD800) * 1024 \<le> 1023 * 1024" by (rule mult_le_mono1)
      moreover have "d - 0xDC00 \<le> 1023" using d by linarith
      ultimately show ?thesis unfolding cp_def by linarith
    qed
    then have "0xF0 + cp div 262144 < 256"
      by simp
    ultimately show ?thesis using u by (simp add: continuation_byte)
  next
    case low
    then show ?thesis using "2.prems"(1) by simp
  next
    case three
    then have n1: "\<not> c < 0x80" and n2: "\<not> c < 0x800" by simp_all
    obtain r where r: "utf8_encode cs = Inr r"
      and u: "u = (0xE0 + c div 4096) # (0x80 + c div 64 mod 64) # (0x80 + c mod 64) # r"
      using "2.prems"(1) n1 n2 three by (auto simp add: map_sum_Inr_iff)
    have "\<forall>b\<in>set r. b < 256"
      using "2.IH"(4) [OF n1 n2 three(2) three(3) r rest] .
    moreover have "0xE0 + c div 4096 < 256"
      using c by simp
    ultimately show ?thesis using u by (simp add: continuation_byte)
  qed
qed

subsection \<open>The sign\<close>

lemma upt_four: "[0..<4] = [0, 1, 2, 3]"
  by (simp add: upt_rec)

lemmas md5_eval =
  md51_def or_into_def zero_tail_def md5cycle_def md5_program_def md5_init_def
  ff_def gg_def hh_def ii_def cmn_def add32_def rhex_def hex_chr_def upt_four Let_def

lemma md5_ascii:
  assumes "\<forall>c\<in>set s. c < 128" and "length s < 2 ^ 29"
  shows "md5 s = Inr (rfc1321_hex (map of_nat s))"
proof -
  have bytes: "\<forall>c\<in>set s. c < 256"
    using assms(1) by auto
  have "\<not> list_ex (\<lambda>c. 0x80 \<le> c \<and> c \<le> 0xFF) s"
    using assms(1) by (auto simp add: list_ex_iff)
  then have "md5 s = Inr (hex (md51 s))"
    by (simp add: md5_def)
  then show ?thesis
    by (simp only: hex_md51_is_rfc1321_hex [OF bytes assms(2)])
qed

lemma md5_latin1:
  assumes "\<exists>c\<in>set s. 128 \<le> c \<and> c \<le> 255" and "\<forall>c\<in>set s. c < 65536"
    and "utf8_encode s = Inr u" and "length u < 2 ^ 29"
  shows "md5 s = Inr (rfc1321_hex (map of_nat u))"
proof -
  have bytes: "\<forall>b\<in>set u. b < 256"
    using assms(3) assms(2) by (rule utf8_encode_bytes)
  have "list_ex (\<lambda>c. 0x80 \<le> c \<and> c \<le> 0xFF) s"
    using assms(1) by (simp add: list_ex_iff)
  then have "md5 s = Inr (hex (md51 u))"
    by (simp add: md5_def assms(3))
  then show ?thesis
    by (simp only: hex_md51_is_rfc1321_hex [OF bytes assms(4)])
qed

lemma sign_ascii_value:
  "generateSign [97] [49] [50] [123, 125] = Inr ''a412dd28622d371eaec8860035c96bda''"
  by (simp add: generateSign_def signStr_def md5_def md5_eval)

lemma sign_wide_value:
  "generateSign [256] [] [] [] = Inr ''076890dc8f70911b1b45e2d80aef411d''"
  by (simp add: generateSign_def signStr_def md5_def md5_eval)

lemma reference_wide_value:
  "rfc1321_hex [196, 128, 38, 38, 38] = ''59e5a23b3df6c20d6b819f2c05a4d385''"
proof -
  have "hex (md51 [196, 128, 38, 38, 38]) = ''59e5a23b3df6c20d6b819f2c05a4d385''"
    by (simp add: md5_eval)
  moreover have "hex (md51 [196, 128, 38, 38, 38]) = rfc1321_hex (map of_nat [196, 128, 38, 38, 38])"
    by (rule hex_md51_is_rfc1321_hex) simp_all
  ultimately show ?thesis
    by simp
qed

text \<open>
  Where the script hashes bytes it agrees with the standard. If every code unit of the
  concatenation \<open>token & timestamp & appKey & data\<close> is below 128 and the concatenation
  is shorter than \<open>2 ^ 29\<close>, the sign is the lower-case hexadecimal MD5 digest (RFC 1321)
  of these bytes; and if the concatenation holds a code unit between 128 and 255, has a
  UTF-8 encoding (no lone surrogate) and this encoding is shorter than \<open>2 ^ 29\<close> bytes,
  the sign is the MD5 digest of the encoding. The bound comes from the length in bits,
  which the script stores in one 32-bit word.
\<close>

theorem generateSign_is_md5:
  assumes "s = signStr token timestamp' appKey data'"
  shows "((\<forall>c\<in>set s. c < 128) \<and> length s < 2 ^ 29
            \<longrightarrow> generateSign token timestamp' appKey data' = Inr (rfc1321_hex (map of_nat s)))
       \<and> ((\<exists>c\<in>set s. 128 \<le> c \<and> c \<le> 255) \<and> (\<forall>c\<in>set s. c < 65536)
              \<and> utf8_encode s = Inr u \<and> length u < 2 ^ 29
            \<longrightarrow> generateSign token timestamp' appKey data' = Inr (rfc1321_hex (map of_nat u)))"
proof (intro conjI impI)
  assume "(\<forall>c\<in>set s. c < 128) \<and> length s < 2 ^ 29"
  then have "md5 s = Inr (rfc1321_hex (map of_nat s))"
    by (intro md5_ascii) simp_all
  then show "generateSign token timestamp' appKey data' = Inr (rfc1321_hex (map of_nat s))"
    by (simp only: generateSign_def assms)
next
  assume "(\<exists>c\<in>set s. 128 \<le> c \<and> c \<le> 255) \<and> (\<forall>c\<in>set s. c < 65536)
      \<and> utf8_encode s = Inr u \<and> length u < 2 ^ 29"
  then have "md5 s = Inr (rfc1321_hex (map of_nat u))"
    by (intro md5_latin1) simp_all
  then show "generateSign token timestamp' appKey data' = Inr (rfc1321_hex (map of_nat u))"
    by (simp only: generateSign_def assms)
qed

theorem generateSign_is_md5_witness:
  "rfc1321_hex [97, 38, 49, 38, 50, 38, 123, 125] = ''a412dd28622d371eaec8860035c96bda''
   \<and> generateSign [233] [] [] [] = Inr (rfc1321_hex [195, 169, 38, 38, 38])"
proof -
  have "generateSign [97] [49] [50] [123, 125]
      = Inr (rfc1321_hex (map of_nat [97, 38, 49, 38, 50, 38, 123, 125]))"
    using generateSign_is_md5 [where token = "[97]" and timestamp' = "[49]" and appKey = "[50]"
        and data' = "[123, 125]" and s = "[97, 38, 49, 38, 50, 38, 123, 125]" and u = "[]"]
    by (simp add: signStr_def)
  then have first: "rfc1321_hex [97, 38, 49, 38, 50, 38, 123, 125] = ''a412dd28622d371eaec8860035c96bda''"
    by (simp add: sign_ascii_value)
  have "generateSign [233] [] [] [] = Inr (rfc1321_hex (map of_nat [195, 169, 38, 38, 38]))"
    using generateSign_is_md5 [where token = "[233]" and timestamp' = "[]" and appKey = "[]"
        and data' = "[]" and s = "[233, 38, 38, 38]" and u = "[195, 169, 38, 38, 38]"]
    by (simp add: signStr_def)
  then show ?thesis
    using first by simp
qed

text \<open>
  Claim C9: for every token, timestamp, appKey and JSON body the sign equals the MD5
  digest of the concatenation. The script means to hash the UTF-8 encoding of a string
  with characters outside ASCII, but its test for such characters only looks for code
  units between 128 and 255. With the token being the single code unit 256 (the letter
  A with macron) and the other parts empty, the concatenation \<open>[256, 38, 38, 38]\<close> holds
  none: its code units are hashed as they are, 256 is ORed into the first word over the
  bits of the following unit, and the sign \<open>076890dc...\<close> is not the digest
  \<open>59e5a23b...\<close> of the UTF-8 bytes \<open>C4 80 26 26 26\<close>.
\<close>

theorem generateSign_wide_code_unit_not_md5:
  "generateSign [256] [] [] [] = Inr ''076890dc8f70911b1b45e2d80aef411d''
   \<and> utf8_encode (signStr [256] [] [] []) = Inr [196, 128, 38, 38, 38]
   \<and> rfc1321_hex [196, 128, 38, 38, 38] = ''59e5a23b3df6c20d6b819f2c05a4d385''
   \<and> generateSign [256] [] [] [] \<noteq> Inr (rfc1321_hex [196, 128, 38, 38, 38])"
  by (simp add: sign_wide_value reference_wide_value signStr_def)

end
